theory Spec2Isabelle
  imports Main "HOL-Library.Sublist"
begin

section \<open>Platform values shared by the hooks\<close>

text \<open>
  Exceptions of the host platform that the hooks catch. \<^verbatim>\<open>Date.now()\<close> returns
  integer milliseconds, so times and delays are of type \<open>int\<close>.
\<close>

datatype js_exn = SyntaxError | TypeError | QuotaExceededError | SecurityError

subsection \<open>Decimal rendering of an integer\<close>

text \<open>
  A template literal renders the integer \<^verbatim>\<open>Date.now()\<close> in decimal, with a leading
  minus sign below zero.
\<close>

definition digit_char :: "nat \<Rightarrow> char" where
  "digit_char d = ''0123456789'' ! d"

fun digits :: "nat \<Rightarrow> string" where
  "digits n = (if n < 10 then [digit_char n] else digits (n div 10) @ [digit_char (n mod 10)])"

declare digits.simps [simp del]

definition dec :: "int \<Rightarrow> string" where
  "dec i = (if i < 0 then CHR ''-'' # digits (nat (- i)) else digits (nat i))"

text \<open>\<^verbatim>\<open>s.substr(start, len)\<close> for non-negative arguments.\<close>

definition substr :: "string \<Rightarrow> nat \<Rightarrow> nat \<Rightarrow> string" where
  "substr s start len = take len (drop start s)"

section \<open>Notification queue (src/contexts/NotificationContext.tsx)\<close>

subsection \<open>Data model\<close>

text \<open>
  \<^verbatim>\<open>type NotificationType = 'success' | 'error' | 'warning' | 'info'\<close> and the
  \<^verbatim>\<open>Notification\<close> interface. The field \<^verbatim>\<open>id\<close> is called \<open>nid\<close> and
  \<^verbatim>\<open>type\<close> is called \<open>ntype\<close>, both names being taken in HOL.
\<close>

datatype NotificationType = NSuccess | NError | NWarning | NInfo

record Notification =
  nid :: string
  message :: string
  ntype :: NotificationType
  duration :: "int option"
  timestamp :: int

text \<open>
  The provider owns the list held by \<^verbatim>\<open>useState<Notification[]>([])\<close> and the
  timeouts it has handed to \<^verbatim>\<open>setTimeout\<close>. A pending timeout is kept as the
  number of milliseconds still to wait, paired with the id its callback will remove.
\<close>

record NotificationState =
  notifications :: "Notification list"
  timers :: "(int \<times> string) list"

definition initialNotificationState :: NotificationState where
  "initialNotificationState = \<lparr>notifications = [], timers = []\<rparr>"

subsection \<open>generateId\<close>

text \<open>
  \<^verbatim>\<open>`${Date.now()}-${Math.random().toString(36).substr(2, 9)}`\<close>. The arguments are
  what the platform hands back: \<open>now\<close> is the clock value and \<open>rnd\<close> is the text
  \<^verbatim>\<open>Math.random().toString(36)\<close>, such as \<^verbatim>\<open>0.4fzyo82mvyr\<close>.
\<close>

definition generateId :: "int \<Rightarrow> string \<Rightarrow> string" where
  "generateId now rnd = dec now @ ''-'' @ substr rnd 2 9"

subsection \<open>removeNotification and clearNotifications\<close>

text \<open>
  \<^verbatim>\<open>setNotifications(prev => prev.filter(notification => notification.id !== id))\<close>.
  The pending timeouts are not touched.
\<close>

definition removeNotification :: "string \<Rightarrow> NotificationState \<Rightarrow> NotificationState" where
  "removeNotification i s = s\<lparr>notifications := filter (\<lambda>n. nid n \<noteq> i) (notifications s)\<rparr>"

definition clearNotifications :: "NotificationState \<Rightarrow> NotificationState" where
  "clearNotifications s = s\<lparr>notifications := []\<rparr>"

subsection \<open>setTimeout\<close>

text \<open>
  The delay that the browser's \<^verbatim>\<open>setTimeout\<close> applies to a requested integer delay.
  The argument is converted to a signed 32-bit integer, wrapping around, and a negative
  result counts as zero (HTML Standard, timer initialisation steps). Every delay from 0
  to 2147483647 is taken as it is; 2147483648 wraps to a negative number and becomes 0.
\<close>

definition setTimeout_delay :: "int \<Rightarrow> int" where
  "setTimeout_delay d =
     (let w = (d + 2147483648) mod 4294967296 - 2147483648 in if w < 0 then 0 else w)"

text \<open>\<^verbatim>\<open>setTimeout(() => { removeNotification(id) }, d)\<close>: one more pending timeout.\<close>

definition setTimeout :: "string \<Rightarrow> int \<Rightarrow> NotificationState \<Rightarrow> NotificationState" where
  "setTimeout i d s = s\<lparr>timers := timers s @ [(setTimeout_delay d, i)]\<rparr>"

subsection \<open>addNotification\<close>

text \<open>
  \<open>now\<close> and \<open>rnd\<close> feed \<open>generateId\<close>; \<open>stamp\<close> is the second reading of the
  clock, stored as \<^verbatim>\<open>timestamp\<close>. An omitted \<^verbatim>\<open>type\<close> or \<^verbatim>\<open>duration\<close>
  (\<open>None\<close>) takes the declared default, \<^verbatim>\<open>'info'\<close> and \<^verbatim>\<open>5000\<close>. The
  function returns the id together with the new state.
\<close>

definition addNotification ::
  "int \<Rightarrow> string \<Rightarrow> int \<Rightarrow> string \<Rightarrow> NotificationType option \<Rightarrow> int option \<Rightarrow>
   NotificationState \<Rightarrow> string \<times> NotificationState" where
  "addNotification now rnd stamp msg ty dur s =
     (let type = (case ty of None \<Rightarrow> NInfo | Some t \<Rightarrow> t);
          d = (case dur of None \<Rightarrow> 5000 | Some d \<Rightarrow> d);
          i = generateId now rnd;
          notification = \<lparr>nid = i, message = msg, ntype = type, duration = Some d,
                          timestamp = stamp\<rparr>;
          s1 = s\<lparr>notifications := notifications s @ [notification]\<rparr>;
          s2 = (if d > 0 then setTimeout i d s1 else s1)
      in (i, s2))"

subsection \<open>The passage of time\<close>

text \<open>
  \<open>elapse dt\<close> lets \<open>dt\<close> milliseconds pass: every timeout whose remaining delay
  is at most \<open>dt\<close> fires, earliest first, and runs \<^verbatim>\<open>removeNotification(id)\<close>; the
  others stay pending with \<open>dt\<close> less to wait. The delays counted down here are
  those \<open>setTimeout\<close> has accepted, between 0 and 2147483647.
\<close>

definition elapse :: "int \<Rightarrow> NotificationState \<Rightarrow> NotificationState" where
  "elapse dt s =
     (let due = sort_key fst (filter (\<lambda>(d, i). d \<le> dt) (timers s));
          rest = map (\<lambda>(d, i). (d - dt, i)) (filter (\<lambda>(d, i). \<not> d \<le> dt) (timers s))
      in fold (\<lambda>(d, i). removeNotification i) due (s\<lparr>timers := rest\<rparr>))"

text \<open>What can happen to the queue: the three operations of the context, and time passing.\<close>

datatype NotificationEvent =
    Add int string int string "NotificationType option" "int option"
  | Remove string
  | Clear
  | Elapse int

fun notify_step :: "NotificationEvent \<Rightarrow> NotificationState \<Rightarrow> NotificationState" where
  "notify_step (Add now rnd stamp msg ty dur) s = snd (addNotification now rnd stamp msg ty dur s)"
| "notify_step (Remove i) s = removeNotification i s"
| "notify_step Clear s = clearNotifications s"
| "notify_step (Elapse dt) s = elapse dt s"

fun notify_run :: "NotificationEvent list \<Rightarrow> NotificationState \<Rightarrow> NotificationState" where
  "notify_run [] s = s"
| "notify_run (e # es) s = notify_run es (notify_step e s)"

text \<open>The time that passes during an event, and during a run of events.\<close>

fun time_of :: "NotificationEvent \<Rightarrow> int" where
  "time_of (Elapse dt) = dt"
| "time_of e = 0"

fun elapsed :: "NotificationEvent list \<Rightarrow> int" where
  "elapsed [] = 0"
| "elapsed (e # es) = time_of e + elapsed es"

text \<open>
  Events after which the id \<open>i\<close> is still that of one call only: time does not run
  backwards, and no later addition generates \<open>i\<close> again. Removals are unrestricted.
\<close>

fun no_readd :: "string \<Rightarrow> NotificationEvent \<Rightarrow> bool" where
  "no_readd i (Add now rnd stamp msg ty dur) = (generateId now rnd \<noteq> i)"
| "no_readd i (Elapse dt) = (0 \<le> dt)"
| "no_readd i (Remove j) = True"
| "no_readd i Clear = True"

text \<open>
  Events that, in addition, do not remove the id \<open>i\<close> on request: removals of other
  ids are allowed, \<^verbatim>\<open>removeNotification(i)\<close> and \<^verbatim>\<open>clearNotifications()\<close> are not.
\<close>

fun spares :: "string \<Rightarrow> NotificationEvent \<Rightarrow> bool" where
  "spares i (Add now rnd stamp msg ty dur) = (generateId now rnd \<noteq> i)"
| "spares i (Elapse dt) = (0 \<le> dt)"
| "spares i (Remove j) = (j \<noteq> i)"
| "spares i Clear = False"

section \<open>Throttled callback (src/hooks/useDebounce.ts, useThrottle)\<close>

text \<open>
  The hook keeps \<^verbatim>\<open>lastRunRef = useRef<number>(Date.now())\<close>: the reference starts at
  the time the hook is created. \<open>throttled delay now h\<close> is one call of the returned
  function when the clock reads \<open>now\<close>; the flag says whether \<^verbatim>\<open>callback(...args)\<close>
  ran.
\<close>

record ThrottleHook =
  lastRun :: int

definition useThrottle :: "int \<Rightarrow> ThrottleHook" where
  "useThrottle created = \<lparr>lastRun = created\<rparr>"

definition throttled :: "int \<Rightarrow> int \<Rightarrow> ThrottleHook \<Rightarrow> ThrottleHook \<times> bool" where
  "throttled delay now h =
     (if now - lastRun h \<ge> delay then (h\<lparr>lastRun := now\<rparr>, True) else (h, False))"

text \<open>A sequence of calls at the given clock readings; the result says which ones ran.\<close>

fun throttled_calls :: "int \<Rightarrow> ThrottleHook \<Rightarrow> int list \<Rightarrow> bool list" where
  "throttled_calls delay h [] = []"
| "throttled_calls delay h (t # ts) =
     (case throttled delay t h of (h', executed) \<Rightarrow> executed # throttled_calls delay h' ts)"

text \<open>
  The time of the last call that ran, in a log of calls (time, executed), if any did.
\<close>

fun last_execution :: "(int \<times> bool) list \<Rightarrow> int option" where
  "last_execution [] = None"
| "last_execution ((t, executed) # rest) =
     (case last_execution rest of Some u \<Rightarrow> Some u | None \<Rightarrow> if executed then Some t else None)"

text \<open>
  The rule in the specification's words: a call runs if and only if at least \<open>delay\<close>
  milliseconds have passed since the last execution. Before any execution there is no
  such moment, and nothing has run within the last \<open>delay\<close> milliseconds.
\<close>

definition spec_should_run :: "int \<Rightarrow> (int \<times> bool) list \<Rightarrow> int \<Rightarrow> bool" where
  "spec_should_run delay log now =
     (case last_execution log of None \<Rightarrow> True | Some t \<Rightarrow> now - t \<ge> delay)"

text \<open>
  The rule the hook follows: the reference point is the last execution, and the creation
  of the hook while nothing has run.
\<close>

definition reference_time :: "int \<Rightarrow> (int \<times> bool) list \<Rightarrow> int" where
  "reference_time created log = (case last_execution log of None \<Rightarrow> created | Some t \<Rightarrow> t)"

section \<open>Async operation wrapper (src/hooks/useAsync.ts)\<close>

subsection \<open>Data model\<close>

text \<open>
  An \<^verbatim>\<open>Error\<close> object is its name and message. \<^verbatim>\<open>data: T | null\<close> and
  \<^verbatim>\<open>error: Error | null\<close> are options, \<open>None\<close> standing for \<^verbatim>\<open>null\<close>.
\<close>

datatype JsError = JsError (error_name: string) (error_message: string)

datatype AsyncStatus = Idle | Loading | Success | Error

record 'a AsyncState =
  status :: AsyncStatus
  data :: "'a option"
  error :: "JsError option"
  isLoading :: bool

text \<open>One use of the hook: the state cell and \<^verbatim>\<open>isMountedRef.current\<close>.\<close>

record 'a AsyncHook =
  state :: "'a AsyncState"
  isMounted :: bool

text \<open>
  What \<^verbatim>\<open>await asyncFunction()\<close> ends with. The type \<^verbatim>\<open>T\<close> is unconstrained, so
  the operation may resolve with \<^verbatim>\<open>null\<close> (\<open>Resolved None\<close>). A rejection or a
  throw carries any value: an instance of \<^verbatim>\<open>Error\<close>, or something else.
\<close>

datatype 'x thrown = ErrorInstance JsError | NonError 'x

datatype ('a, 'x) settled = Resolved "'a option" | Rejected "'x thrown"

text \<open>The exception that leaves \<^verbatim>\<open>execute\<close> when \<^verbatim>\<open>String(error)\<close> itself throws.\<close>

datatype hook_exn = StringConversionThrew

subsection \<open>The hook\<close>

definition initialAsyncState :: "'a AsyncState" where
  "initialAsyncState = \<lparr>status = Idle, data = None, error = None, isLoading = False\<rparr>"

definition useAsync_mount :: "'a AsyncHook" where
  "useAsync_mount = \<lparr>state = initialAsyncState, isMounted = True\<rparr>"

text \<open>
  \<^verbatim>\<open>execute\<close> up to its \<^verbatim>\<open>await\<close>: the unguarded
  \<^verbatim>\<open>setState({ status: 'loading', data: null, error: null, isLoading: true })\<close>.
\<close>

definition execute_begin :: "'a AsyncHook \<Rightarrow> 'a AsyncHook" where
  "execute_begin h =
     h\<lparr>state := \<lparr>status = Loading, data = None, error = None, isLoading = True\<rparr>\<rparr>"

text \<open>
  \<^verbatim>\<open>execute\<close> after its \<^verbatim>\<open>await\<close>. \<open>String\<close> is the platform's conversion
  \<^verbatim>\<open>String(error)\<close>, \<open>None\<close> when the conversion throws; it is only called on a
  value that is not an \<^verbatim>\<open>Error\<close>, and only while mounted.
\<close>

definition execute_settle ::
  "('x \<Rightarrow> string option) \<Rightarrow> ('a, 'x) settled \<Rightarrow> 'a AsyncHook \<Rightarrow> hook_exn + 'a AsyncHook" where
  "execute_settle String outcome h =
     (case outcome of
        Resolved response \<Rightarrow>
          if isMounted h
          then Inr (h\<lparr>state := \<lparr>status = Success, data = response, error = None,
                                  isLoading = False\<rparr>\<rparr>)
          else Inr h
      | Rejected e \<Rightarrow>
          if isMounted h
          then (case e of
                  ErrorInstance err \<Rightarrow>
                    Inr (h\<lparr>state := \<lparr>status = Error, data = None, error = Some err,
                                      isLoading = False\<rparr>\<rparr>)
                | NonError x \<Rightarrow>
                    (case String x of
                       None \<Rightarrow> Inl StringConversionThrew
                     | Some s \<Rightarrow>
                         Inr (h\<lparr>state := \<lparr>status = Error, data = None,
                                           error = Some (JsError ''Error'' s),
                                           isLoading = False\<rparr>\<rparr>)))
          else Inr h)"

text \<open>The effect's cleanup: \<^verbatim>\<open>isMountedRef.current = false\<close>.\<close>

definition cleanup :: "'a AsyncHook \<Rightarrow> 'a AsyncHook" where
  "cleanup h = h\<lparr>isMounted := False\<rparr>"

text \<open>The hook after its first effect: \<^verbatim>\<open>if (immediate) { execute() }\<close>.\<close>

definition useAsync :: "bool \<Rightarrow> 'a AsyncHook" where
  "useAsync immediate = (if immediate then execute_begin useAsync_mount else useAsync_mount)"

subsection \<open>Transitions\<close>

datatype ('a, 'x) AsyncEvent = Execute | Settle "('a, 'x) settled" | Detach

fun async_step ::
  "('x \<Rightarrow> string option) \<Rightarrow> ('a, 'x) AsyncEvent \<Rightarrow> 'a AsyncHook \<Rightarrow> hook_exn + 'a AsyncHook" where
  "async_step String Execute h = Inr (execute_begin h)"
| "async_step String (Settle outcome) h = execute_settle String outcome h"
| "async_step String Detach h = Inr (cleanup h)"

text \<open>
  A run of events. An exception that leaves \<^verbatim>\<open>execute\<close> rejects the promise it
  returned and writes nothing, so the hook goes on from the same state.
\<close>

fun async_run ::
  "('x \<Rightarrow> string option) \<Rightarrow> ('a, 'x) AsyncEvent list \<Rightarrow> 'a AsyncHook \<Rightarrow> 'a AsyncHook" where
  "async_run String [] h = h"
| "async_run String (e # es) h =
     async_run String es (case async_step String e h of Inl x \<Rightarrow> h | Inr h' \<Rightarrow> h')"

inductive reachable :: "('x \<Rightarrow> string option) \<Rightarrow> 'a AsyncHook \<Rightarrow> bool"
  for String :: "'x \<Rightarrow> string option" where
  mount: "reachable String useAsync_mount"
| step: "reachable String h \<Longrightarrow> async_step String e h = Inr h' \<Longrightarrow> reachable String h'"

fun is_settle :: "('a, 'x) AsyncEvent \<Rightarrow> bool" where
  "is_settle (Settle outcome) = True"
| "is_settle e = False"

text \<open>The specification's invariant: exactly one of \<^verbatim>\<open>data\<close>, \<^verbatim>\<open>error\<close> is non-null.\<close>

definition exactly_one_non_null :: "'a AsyncState \<Rightarrow> bool" where
  "exactly_one_non_null st = ((data st \<noteq> None) \<noteq> (error st \<noteq> None))"

text \<open>The combinations of fields that the hook writes, status by status.\<close>

definition state_shape :: "'a AsyncState \<Rightarrow> bool" where
  "state_shape st =
     (case status st of
        Idle \<Rightarrow> data st = None \<and> error st = None \<and> \<not> isLoading st
      | Loading \<Rightarrow> data st = None \<and> error st = None \<and> isLoading st
      | Success \<Rightarrow> error st = None \<and> \<not> isLoading st
      | Error \<Rightarrow> data st = None \<and> error st \<noteq> None \<and> \<not> isLoading st)"

subsection \<open>Values that are thrown in the examples\<close>

text \<open>
  Three values that are not instances of \<^verbatim>\<open>Error\<close>, with what \<^verbatim>\<open>String\<close> makes
  of them: a string is itself, an integer is its decimal text, and an object without a
  prototype (\<^verbatim>\<open>Object.create(null)\<close>) cannot be converted: \<^verbatim>\<open>String\<close> throws a
  \<^verbatim>\<open>TypeError\<close>.
\<close>

datatype thrown_value = ThrownString string | ThrownInt int | ThrownBareObject

fun String_of :: "thrown_value \<Rightarrow> string option" where
  "String_of (ThrownString s) = Some s"
| "String_of (ThrownInt i) = Some (dec i)"
| "String_of ThrownBareObject = None"

section \<open>Form state (FormContext)\<close>

text \<open>
  \<^verbatim>\<open>FormData\<close> maps field names to values of any kind; \<^verbatim>\<open>FormErrors\<close> maps a name
  to \<^verbatim>\<open>string | undefined\<close>, so a key may be present with no message.
\<close>

type_synonym 'v FormData = "string \<rightharpoonup> 'v"

type_synonym FormErrors = "string \<rightharpoonup> string option"

record 'v FormState =
  formData :: "'v FormData"
  errors :: FormErrors
  touched :: "string set"
  isSubmitting :: bool

text \<open>The provider's property \<^verbatim>\<open>initialData = {}\<close>.\<close>

definition provider_initialData :: "'v FormData option \<Rightarrow> 'v FormData" where
  "provider_initialData prop = (case prop of None \<Rightarrow> Map.empty | Some d \<Rightarrow> d)"

definition FormProvider :: "'v FormData \<Rightarrow> 'v FormState" where
  "FormProvider initialData =
     \<lparr>formData = initialData, errors = Map.empty, touched = {}, isSubmitting = False\<rparr>"

definition updateField :: "string \<Rightarrow> 'v \<Rightarrow> 'v FormState \<Rightarrow> 'v FormState" where
  "updateField name v s = s\<lparr>formData := (formData s)(name \<mapsto> v)\<rparr>"

definition updateFields :: "'v FormData \<Rightarrow> 'v FormState \<Rightarrow> 'v FormState" where
  "updateFields updates s = s\<lparr>formData := formData s ++ updates\<rparr>"

definition setErrors :: "FormErrors \<Rightarrow> 'v FormState \<Rightarrow> 'v FormState" where
  "setErrors newErrors s = s\<lparr>errors := newErrors\<rparr>"

definition setFieldError :: "string \<Rightarrow> string option \<Rightarrow> 'v FormState \<Rightarrow> 'v FormState" where
  "setFieldError name err s = s\<lparr>errors := (errors s)(name \<mapsto> err)\<rparr>"

definition markAsTouched :: "string \<Rightarrow> 'v FormState \<Rightarrow> 'v FormState" where
  "markAsTouched name s = s\<lparr>touched := touched s \<union> {name}\<rparr>"

definition markAsUntouched :: "string \<Rightarrow> 'v FormState \<Rightarrow> 'v FormState" where
  "markAsUntouched name s = s\<lparr>touched := touched s - {name}\<rparr>"

definition setIsSubmitting :: "bool \<Rightarrow> 'v FormState \<Rightarrow> 'v FormState" where
  "setIsSubmitting b s = s\<lparr>isSubmitting := b\<rparr>"

text \<open>
  \<^verbatim>\<open>setFormData(newInitialData || initialData)\<close>: an object is truthy, so a supplied
  snapshot is taken whatever it holds; an omitted one falls back to the provider's
  \<^verbatim>\<open>initialData\<close>.
\<close>

definition resetForm :: "'v FormData \<Rightarrow> 'v FormData option \<Rightarrow> 'v FormState \<Rightarrow> 'v FormState" where
  "resetForm initialData newInitialData s =
     s\<lparr>formData := (case newInitialData of Some d \<Rightarrow> d | None \<Rightarrow> initialData),
       errors := Map.empty,
       touched := {},
       isSubmitting := False\<rparr>"

subsection \<open>The provider across renders\<close>

text \<open>
  The provider reads its \<^verbatim>\<open>initialData\<close> property on every render, but
  \<^verbatim>\<open>useState(initialData)\<close> takes it at the first render only. \<^verbatim>\<open>resetForm\<close> is
  rebuilt whenever the property changes (dependency list \<^verbatim>\<open>[initialData]\<close>), so it
  closes over the property of the latest render. An instance is that property, after
  the default, together with the four state cells.
\<close>

record 'v FormProviderInstance =
  initialData_prop :: "'v FormData"
  form :: "'v FormState"

definition FormProvider_mount :: "'v FormData option \<Rightarrow> 'v FormProviderInstance" where
  "FormProvider_mount given =
     \<lparr>initialData_prop = provider_initialData given,
      form = FormProvider (provider_initialData given)\<rparr>"

definition FormProvider_rerender ::
  "'v FormData option \<Rightarrow> 'v FormProviderInstance \<Rightarrow> 'v FormProviderInstance" where
  "FormProvider_rerender given p = p\<lparr>initialData_prop := provider_initialData given\<rparr>"

text \<open>The calls a consumer can make on the context, and a render with a given property.\<close>

datatype 'v FormEvent =
    UpdateField string 'v
  | UpdateFields "'v FormData"
  | SetErrors FormErrors
  | SetFieldError string "string option"
  | MarkAsTouched string
  | MarkAsUntouched string
  | SetIsSubmitting bool
  | ResetForm "'v FormData option"
  | Rerender "'v FormData option"

fun form_step :: "'v FormEvent \<Rightarrow> 'v FormProviderInstance \<Rightarrow> 'v FormProviderInstance" where
  "form_step (UpdateField name v) p = p\<lparr>form := updateField name v (form p)\<rparr>"
| "form_step (UpdateFields updates) p = p\<lparr>form := updateFields updates (form p)\<rparr>"
| "form_step (SetErrors newErrors) p = p\<lparr>form := setErrors newErrors (form p)\<rparr>"
| "form_step (SetFieldError name err) p = p\<lparr>form := setFieldError name err (form p)\<rparr>"
| "form_step (MarkAsTouched name) p = p\<lparr>form := markAsTouched name (form p)\<rparr>"
| "form_step (MarkAsUntouched name) p = p\<lparr>form := markAsUntouched name (form p)\<rparr>"
| "form_step (SetIsSubmitting b) p = p\<lparr>form := setIsSubmitting b (form p)\<rparr>"
| "form_step (ResetForm newInitialData) p =
     p\<lparr>form := resetForm (initialData_prop p) newInitialData (form p)\<rparr>"
| "form_step (Rerender given) p = FormProvider_rerender given p"

fun form_run :: "'v FormEvent list \<Rightarrow> 'v FormProviderInstance \<Rightarrow> 'v FormProviderInstance" where
  "form_run [] p = p"
| "form_run (e # es) p = form_run es (form_step e p)"

text \<open>
  The property of the latest render: that of the last \<open>Rerender\<close> among the events,
  and the one the provider was mounted with when there is none.
\<close>

fun latest_prop :: "'v FormData option \<Rightarrow> 'v FormEvent list \<Rightarrow> 'v FormData option" where
  "latest_prop given [] = given"
| "latest_prop given (Rerender given' # es) = latest_prop given' es"
| "latest_prop given (e # es) = latest_prop given es"

text \<open>Events that are not a render with another snapshot than the given one.\<close>

fun same_snapshot :: "'v FormData option \<Rightarrow> 'v FormEvent \<Rightarrow> bool" where
  "same_snapshot given (Rerender given') =
     (provider_initialData given' = provider_initialData given)"
| "same_snapshot given e = True"

section \<open>Storage-backed state (useLocalStorage)\<close>

subsection \<open>The platform\<close>

text \<open>
  The hook is generic in the stored type and relies on four things of the host:
  whether \<^verbatim>\<open>window\<close> exists, whether access to \<^verbatim>\<open>window.localStorage\<close> is refused
  (a \<^verbatim>\<open>SecurityError\<close>), whether the store accepts a write (a
  \<^verbatim>\<open>QuotaExceededError\<close> otherwise), and the JSON codec. \<open>JSON_stringify\<close> gives the
  text that \<^verbatim>\<open>setItem\<close> receives, or the exception thrown; \<open>JSON_parse\<close> gives the
  parsed value, or the exception thrown.
\<close>

type_synonym Storage = "string \<rightharpoonup> string"

record 'v Platform =
  window_defined :: bool
  storage_denied :: bool
  quota_allows :: "Storage \<Rightarrow> string \<Rightarrow> string \<Rightarrow> bool"
  JSON_stringify :: "'v \<Rightarrow> js_exn + string"
  JSON_parse :: "string \<Rightarrow> js_exn + 'v"

definition getItem :: "'v Platform \<Rightarrow> Storage \<Rightarrow> string \<Rightarrow> js_exn + string option" where
  "getItem P st k = (if storage_denied P then Inl SecurityError else Inr (st k))"

definition setItem :: "'v Platform \<Rightarrow> Storage \<Rightarrow> string \<Rightarrow> string \<Rightarrow> js_exn + Storage" where
  "setItem P st k v =
     (if storage_denied P then Inl SecurityError
      else if quota_allows P st k v then Inr (st(k \<mapsto> v))
      else Inl QuotaExceededError)"

definition removeItem :: "'v Platform \<Rightarrow> Storage \<Rightarrow> string \<Rightarrow> js_exn + Storage" where
  "removeItem P st k = (if storage_denied P then Inl SecurityError else Inr (st(k := None)))"

subsection \<open>The hook\<close>

record 'v LocalStorageHook =
  storedValue :: 'v

text \<open>
  The initialiser of \<^verbatim>\<open>useState\<close>. \<^verbatim>\<open>if (item)\<close> is false for \<^verbatim>\<open>null\<close> and for
  the empty string; every exception ends in \<^verbatim>\<open>initialValue\<close>.
\<close>

definition useLocalStorage :: "'v Platform \<Rightarrow> Storage \<Rightarrow> string \<Rightarrow> 'v \<Rightarrow> 'v LocalStorageHook" where
  "useLocalStorage P st key initialValue =
     \<lparr>storedValue =
        (case (if window_defined P then getItem P st key else Inr None) of
           Inl ex \<Rightarrow> initialValue
         | Inr None \<Rightarrow> initialValue
         | Inr (Some item) \<Rightarrow>
             if item \<noteq> []
             then (case JSON_parse P item of Inl ex \<Rightarrow> initialValue | Inr v \<Rightarrow> v)
             else initialValue)\<rparr>"

text \<open>The argument of \<^verbatim>\<open>setValue\<close>: \<^verbatim>\<open>T | ((prev: T) => T)\<close>.\<close>

datatype 'v SetStateAction = Value 'v | Updater "'v \<Rightarrow> 'v"

text \<open>
  \<^verbatim>\<open>setValue\<close>: the state is set before the write is tried, and an exception from
  \<^verbatim>\<open>JSON.stringify\<close> or \<^verbatim>\<open>setItem\<close> is caught and logged, so the store then keeps
  what it had.
\<close>

definition setValue ::
  "'v Platform \<Rightarrow> string \<Rightarrow> 'v SetStateAction \<Rightarrow> 'v LocalStorageHook \<times> Storage \<Rightarrow>
   'v LocalStorageHook \<times> Storage" where
  "setValue P key v hs =
     (case hs of (h, st) \<Rightarrow>
        let valueToStore = (case v of Updater f \<Rightarrow> f (storedValue h) | Value x \<Rightarrow> x);
            h' = h\<lparr>storedValue := valueToStore\<rparr>
        in if window_defined P
           then (case JSON_stringify P valueToStore of
                   Inl ex \<Rightarrow> (h', st)
                 | Inr text \<Rightarrow>
                     (case setItem P st key text of
                        Inl ex \<Rightarrow> (h', st)
                      | Inr st' \<Rightarrow> (h', st')))
           else (h', st))"

definition removeValue ::
  "'v Platform \<Rightarrow> string \<Rightarrow> 'v \<Rightarrow> 'v LocalStorageHook \<times> Storage \<Rightarrow>
   'v LocalStorageHook \<times> Storage" where
  "removeValue P key initialValue hs =
     (case hs of (h, st) \<Rightarrow>
        let h' = h\<lparr>storedValue := initialValue\<rparr>
        in if window_defined P
           then (case removeItem P st key of Inl ex \<Rightarrow> (h', st) | Inr st' \<Rightarrow> (h', st'))
           else (h', st))"

subsection \<open>A browser with the scalar part of JSON\<close>

text \<open>
  For the examples: the JavaScript values \<^verbatim>\<open>undefined\<close>, \<^verbatim>\<open>null\<close>, the booleans,
  \<^verbatim>\<open>NaN\<close> and the integers, with what \<^verbatim>\<open>JSON.stringify\<close> and \<^verbatim>\<open>JSON.parse\<close>
  do on them. The example describes the codec on part of its domain only. Where it says
  nothing the result is \<open>unmodelled\<close>, a value about which nothing can be proved, so
  that no statement of this theory depends on it.
\<close>

definition unmodelled :: "'a" where
  "unmodelled = undefined"

datatype jsvalue = JUndefined | JNull | JBool bool | JNaN | JInt int

text \<open>
  \<^verbatim>\<open>Number.MAX_SAFE_INTEGER\<close>. Every integer up to it in absolute value is a number
  of JavaScript, written by \<^verbatim>\<open>JSON.stringify\<close> in plain decimal digits and read back
  from them exactly. Larger integers are left out (they need not be numbers at all, and
  from 10 to the 21 on they are written with an exponent).
\<close>

definition MAX_SAFE_INTEGER :: int where
  "MAX_SAFE_INTEGER = 9007199254740991"

text \<open>
  \<^verbatim>\<open>JSON.stringify(undefined)\<close> returns \<^verbatim>\<open>undefined\<close>, which \<^verbatim>\<open>setItem\<close> stores
  as the text \<^verbatim>\<open>undefined\<close>; \<^verbatim>\<open>NaN\<close> is written as \<^verbatim>\<open>null\<close>.
\<close>

fun JSON_stringify_scalar :: "jsvalue \<Rightarrow> js_exn + string" where
  "JSON_stringify_scalar JUndefined = Inr ''undefined''"
| "JSON_stringify_scalar JNull = Inr ''null''"
| "JSON_stringify_scalar (JBool b) = Inr (if b then ''true'' else ''false'')"
| "JSON_stringify_scalar JNaN = Inr ''null''"
| "JSON_stringify_scalar (JInt i) =
     (if \<bar>i\<bar> \<le> MAX_SAFE_INTEGER then Inr (dec i) else unmodelled)"

definition digit_value :: "char \<Rightarrow> nat option" where
  "digit_value c =
     map_of [(CHR ''0'', 0), (CHR ''1'', 1), (CHR ''2'', 2), (CHR ''3'', 3), (CHR ''4'', 4),
             (CHR ''5'', 5), (CHR ''6'', 6), (CHR ''7'', 7), (CHR ''8'', 8), (CHR ''9'', 9)] c"

fun parse_digits :: "nat \<Rightarrow> string \<Rightarrow> nat option" where
  "parse_digits acc [] = Some acc"
| "parse_digits acc (c # cs) =
     (case digit_value c of None \<Rightarrow> None | Some d \<Rightarrow> parse_digits (10 * acc + d) cs)"

text \<open>Plain decimal digits, with no leading zero unless the number is \<^verbatim>\<open>0\<close> itself.\<close>

definition parse_natural :: "string \<Rightarrow> nat option" where
  "parse_natural s =
     (if s = [] \<or> (length s > 1 \<and> hd s = CHR ''0'') then None else parse_digits 0 s)"

text \<open>
  \<^verbatim>\<open>JSON.parse\<close> on the texts the example describes: \<^verbatim>\<open>null\<close>, \<^verbatim>\<open>true\<close> and
  \<^verbatim>\<open>false\<close>; \<^verbatim>\<open>undefined\<close> and the empty text, which are syntax errors; and the
  plain decimal text of a safe integer, with a minus sign in front of a negative one.
  Every other text (white space, fractions, exponents, negative zero, strings, arrays,
  objects, malformed texts) is \<open>unmodelled\<close>.
\<close>

definition JSON_parse_scalar :: "string \<Rightarrow> js_exn + jsvalue" where
  "JSON_parse_scalar s =
     (if s = ''null'' then Inr JNull
      else if s = ''true'' then Inr (JBool True)
      else if s = ''false'' then Inr (JBool False)
      else if s = ''undefined'' then Inl SyntaxError
      else (case s of
              [] \<Rightarrow> Inl SyntaxError
            | c # cs \<Rightarrow>
                if c = CHR ''-''
                then (case parse_natural cs of
                        None \<Rightarrow> unmodelled
                      | Some n \<Rightarrow>
                          if 0 < n \<and> int n \<le> MAX_SAFE_INTEGER then Inr (JInt (- int n))
                          else unmodelled)
                else (case parse_natural s of
                        None \<Rightarrow> unmodelled
                      | Some n \<Rightarrow>
                          if int n \<le> MAX_SAFE_INTEGER then Inr (JInt (int n))
                          else unmodelled)))"

text \<open>The values on which the example describes \<^verbatim>\<open>JSON.stringify\<close>.\<close>

fun described :: "jsvalue \<Rightarrow> bool" where
  "described (JInt i) = (\<bar>i\<bar> \<le> MAX_SAFE_INTEGER)"
| "described v = True"

text \<open>
  A browser whose store has room for the writes of the examples, with that codec.
\<close>

definition browser :: "jsvalue Platform" where
  "browser = \<lparr>window_defined = True, storage_denied = False,
              quota_allows = (\<lambda>st k v. True),
              JSON_stringify = JSON_stringify_scalar, JSON_parse = JSON_parse_scalar\<rparr>"

section \<open>Properties of generateId\<close>

subsection \<open>The decimal rendering is injective and has no inner minus sign\<close>

lemma digit_char_inj: "a < 10 \<Longrightarrow> b < 10 \<Longrightarrow> digit_char a = digit_char b \<Longrightarrow> a = b"
proof -
  assume a: "a < 10" and b: "b < 10" and e: "digit_char a = digit_char b"
  have "distinct ''0123456789''" by simp
  then show ?thesis
    using a b e nth_eq_iff_index_eq [of "''0123456789''" a b] by (simp add: digit_char_def)
qed

lemma digit_char_not_minus: "d < 10 \<Longrightarrow> digit_char d \<noteq> CHR ''-''"
proof -
  assume d: "d < 10"
  then have "digit_char d \<in> set ''0123456789''"
    unfolding digit_char_def by (intro nth_mem) simp
  then show ?thesis by auto
qed

lemma digits_small: "n < 10 \<Longrightarrow> digits n = [digit_char n]"
  by (subst digits.simps) simp

lemma digits_large: "\<not> n < 10 \<Longrightarrow> digits n = digits (n div 10) @ [digit_char (n mod 10)]"
  by (subst digits.simps) simp

lemma digits_not_Nil: "digits n \<noteq> []"
  by (cases "n < 10") (simp_all add: digits_small digits_large)

lemma digits_no_minus: "CHR ''-'' \<notin> set (digits n)"
proof (induction n rule: digits.induct)
  case (1 n)
  show ?case
  proof (cases "n < 10")
    case True
    then show ?thesis using digit_char_not_minus [of n] by (auto simp: digits_small)
  next
    case False
    then show ?thesis using 1 digit_char_not_minus [of "n mod 10"]
      by (auto simp: digits_large)
  qed
qed

lemma digits_length_one: "length (digits n) = 1 \<longleftrightarrow> n < 10"
proof (cases "n < 10")
  case True
  then show ?thesis by (simp add: digits_small)
next
  case False
  then show ?thesis using digits_not_Nil [of "n div 10"]
    by (simp add: digits_large)
qed

lemma digits_inj: "digits m = digits n \<Longrightarrow> m = n"
proof (induction m arbitrary: n rule: digits.induct)
  case (1 m)
  show ?case
  proof (cases "m < 10")
    case True
    have "length (digits n) = 1" using "1.prems" True digits_length_one [of m] by simp
    then have n: "n < 10" by (simp only: digits_length_one)
    have "[digit_char m] = [digit_char n]"
      using "1.prems" True n by (simp add: digits_small)
    then show ?thesis using digit_char_inj True n by simp
  next
    case False
    have "length (digits n) \<noteq> 1" using "1.prems" False digits_length_one [of m] by simp
    then have n: "\<not> n < 10" by (simp only: digits_length_one not_False_eq_True)
    have e: "digits (m div 10) @ [digit_char (m mod 10)] = digits (n div 10) @ [digit_char (n mod 10)]"
      using "1.prems" False n by (simp add: digits_large)
    then have "digits (m div 10) = digits (n div 10)" and "digit_char (m mod 10) = digit_char (n mod 10)"
      by simp_all
    then have "m div 10 = n div 10" and "m mod 10 = n mod 10"
      using "1.IH" False digit_char_inj [of "m mod 10" "n mod 10"] by simp_all
    then show ?thesis by (metis div_mult_mod_eq)
  qed
qed

lemma dec_inj: "dec a = dec b \<Longrightarrow> a = b"
proof -
  assume e: "dec a = dec b"
  have hd_digits: "hd (digits n) \<noteq> CHR ''-''" for n
    using digits_no_minus [of n] digits_not_Nil [of n] by (cases "digits n") auto
  show ?thesis
  proof (cases "a < 0")
    case True
    show ?thesis
    proof (cases "b < 0")
      case True
      with \<open>a < 0\<close> e have "digits (nat (- a)) = digits (nat (- b))" by (simp add: dec_def)
      then have "nat (- a) = nat (- b)" by (rule digits_inj)
      with True \<open>a < 0\<close> show ?thesis by simp
    next
      case False
      with \<open>a < 0\<close> e have "CHR ''-'' # digits (nat (- a)) = digits (nat b)" by (simp add: dec_def)
      then have "hd (digits (nat b)) = CHR ''-''" by (metis list.sel(1))
      then show ?thesis using hd_digits by simp
    qed
  next
    case False
    show ?thesis
    proof (cases "b < 0")
      case True
      with False e have "digits (nat a) = CHR ''-'' # digits (nat (- b))" by (simp add: dec_def)
      then have "hd (digits (nat a)) = CHR ''-''" by (metis list.sel(1))
      then show ?thesis using hd_digits by simp
    next
      case b: False
      with False e have "digits (nat a) = digits (nat b)" by (simp add: dec_def)
      then have "nat a = nat b" by (rule digits_inj)
      with False b show ?thesis by simp
    qed
  qed
qed

lemma split_at_minus:
  "CHR ''-'' \<notin> set xs \<Longrightarrow> CHR ''-'' \<notin> set ys \<Longrightarrow>
   xs @ CHR ''-'' # u = ys @ CHR ''-'' # v \<Longrightarrow> xs = ys \<and> u = v"
proof (induction xs arbitrary: ys)
  case Nil
  then show ?case by (cases ys) auto
next
  case (Cons x xs)
  then show ?case by (cases ys) auto
qed

lemma generateId_eq_iff:
  "generateId t1 r1 = generateId t2 r2 \<longleftrightarrow> t1 = t2 \<and> substr r1 2 9 = substr r2 2 9"
proof
  assume e: "generateId t1 r1 = generateId t2 r2"
  show "t1 = t2 \<and> substr r1 2 9 = substr r2 2 9"
  proof (cases "t1 < 0")
    case True
    show ?thesis
    proof (cases "t2 < 0")
      case True
      with \<open>t1 < 0\<close> e have "digits (nat (- t1)) @ CHR ''-'' # substr r1 2 9
           = digits (nat (- t2)) @ CHR ''-'' # substr r2 2 9"
        by (simp add: generateId_def dec_def)
      then have "digits (nat (- t1)) = digits (nat (- t2)) \<and> substr r1 2 9 = substr r2 2 9"
        using split_at_minus digits_no_minus by blast
      then show ?thesis using True \<open>t1 < 0\<close> dec_inj [of t1 t2] by (simp add: dec_def)
    next
      case False
      with \<open>t1 < 0\<close> e have "hd (digits (nat t2) @ CHR ''-'' # substr r2 2 9) = CHR ''-''"
        by (simp add: generateId_def dec_def) (metis list.sel(1))
      then show ?thesis using digits_no_minus [of "nat t2"] digits_not_Nil [of "nat t2"]
        by (cases "digits (nat t2)") auto
    qed
  next
    case False
    show ?thesis
    proof (cases "t2 < 0")
      case True
      with False e have "hd (digits (nat t1) @ CHR ''-'' # substr r1 2 9) = CHR ''-''"
        by (simp add: generateId_def dec_def)
      then show ?thesis using digits_no_minus [of "nat t1"] digits_not_Nil [of "nat t1"]
        by (cases "digits (nat t1)") auto
    next
      case t2: False
      with False e have "digits (nat t1) @ CHR ''-'' # substr r1 2 9
           = digits (nat t2) @ CHR ''-'' # substr r2 2 9"
        by (simp add: generateId_def dec_def)
      then have "digits (nat t1) = digits (nat t2) \<and> substr r1 2 9 = substr r2 2 9"
        using split_at_minus digits_no_minus by blast
      then show ?thesis using False t2 dec_inj [of t1 t2] by (simp add: dec_def)
    qed
  qed
next
  assume "t1 = t2 \<and> substr r1 2 9 = substr r2 2 9"
  then show "generateId t1 r1 = generateId t2 r2" by (simp add: generateId_def)
qed

lemma addNotification_id: "fst (addNotification now rnd stamp msg ty dur s) = generateId now rnd"
  by (simp add: addNotification_def Let_def)

lemmas render_simps = generateId_def dec_def substr_def digits_small digits_large digit_char_def

text \<open>
  Two calls of \<open>addNotification\<close>, in whatever states and with whatever arguments,
  return the same id exactly when they read the same millisecond from the clock and
  their random texts agree on the (at most nine) characters kept after the first two.
\<close>

lemma addNotification_ids_equal_iff:
  "fst (addNotification t1 r1 st1 m1 ty1 d1 s1) = fst (addNotification t2 r2 st2 m2 ty2 d2 s2)
   \<longleftrightarrow> t1 = t2 \<and> substr r1 2 9 = substr r2 2 9"
  by (simp only: addNotification_id generateId_eq_iff)

lemmas notify_simps = addNotification_def setTimeout_def setTimeout_delay_def
  initialNotificationState_def Let_def elapse_def removeNotification_def render_simps

text \<open>
  Claim C4. The ids generated by two distinct calls of \<open>addNotification\<close> are to be
  distinct, and the comment on \<open>generateId\<close> says that it generates a unique id. The
  code does not ensure it: two calls in the same millisecond whose random draws differ
  only after the ninth kept character put two notifications with one id into the queue,
  and removing that id removes both.
\<close>

theorem addNotification_ids_collide:
  "map nid (notifications (notify_run
      [Add 1700000000123 ''0.4fzyo82mvyr'' 1700000000123 ''first'' None None,
       Add 1700000000123 ''0.4fzyo82mvzz'' 1700000000123 ''second'' None None]
      initialNotificationState))
   = [''1700000000123-4fzyo82mv'', ''1700000000123-4fzyo82mv'']
   \<and> notifications (notify_run
      [Add 1700000000123 ''0.4fzyo82mvyr'' 1700000000123 ''first'' None None,
       Add 1700000000123 ''0.4fzyo82mvzz'' 1700000000123 ''second'' None None,
       Remove ''1700000000123-4fzyo82mv'']
      initialNotificationState) = []"
  by (simp add: notify_simps)

section \<open>Properties of the notification queue\<close>

subsection \<open>removeNotification\<close>

lemma removeNotification_timers: "timers (removeNotification i s) = timers s"
  by (simp add: removeNotification_def)

lemma removeNotification_absent:
  "i \<notin> nid ` set (notifications s) \<Longrightarrow> removeNotification i s = s"
proof -
  assume a: "i \<notin> nid ` set (notifications s)"
  have "filter (\<lambda>n. nid n \<noteq> i) (notifications s) = notifications s"
    using a by (induction "notifications s") (auto simp: filter_id_conv)
  then show ?thesis by (simp add: removeNotification_def)
qed

lemma removeNotification_twice:
  "removeNotification i (removeNotification i s) = removeNotification i s"
  by (simp add: removeNotification_def)

text \<open>
  Claim C9. Removing an id that no notification of the queue carries leaves the state
  (queue and pending timeouts) as it was; this is the first conjunct, stated with the
  queue read before and after. Removing the same id twice in a row gives the state that
  removing it once gives, for every state, whether the id was present or not.
\<close>

theorem removeNotification_idempotent:
  "(i \<notin> nid ` set (notifications s) \<longrightarrow> removeNotification i s = s)
   \<and> removeNotification i (removeNotification i s) = removeNotification i s"
  using removeNotification_absent removeNotification_twice by blast

theorem removeNotification_idempotent_witness:
  "''b'' \<notin> nid ` set (notifications
       \<lparr>notifications = [\<lparr>nid = ''a'', message = ''saved'', ntype = NSuccess,
                           duration = Some 0, timestamp = 7\<rparr>], timers = []\<rparr>)
   \<and> removeNotification ''b''
       \<lparr>notifications = [\<lparr>nid = ''a'', message = ''saved'', ntype = NSuccess,
                           duration = Some 0, timestamp = 7\<rparr>], timers = []\<rparr>
     = \<lparr>notifications = [\<lparr>nid = ''a'', message = ''saved'', ntype = NSuccess,
                           duration = Some 0, timestamp = 7\<rparr>], timers = []\<rparr>"
  using removeNotification_idempotent
    [of "''b''" "\<lparr>notifications = [\<lparr>nid = ''a'', message = ''saved'', ntype = NSuccess,
                           duration = Some 0, timestamp = 7\<rparr>], timers = []\<rparr>"]
  by simp

text \<open>
  Claim C10. After \<open>removeNotification i\<close> the queue holds no notification with id
  \<open>i\<close>; every notification with another id occurs exactly as often as before, with
  all its fields, since the elements themselves are compared; the new queue is a
  subsequence of the old one, so the survivors keep their relative order; and the
  pending timeouts are the same.
\<close>

theorem removeNotification_frame:
  "i \<notin> nid ` set (notifications (removeNotification i s))
   \<and> (\<forall>n. nid n \<noteq> i \<longrightarrow>
          count_list (notifications (removeNotification i s)) n = count_list (notifications s) n)
   \<and> subseq (notifications (removeNotification i s)) (notifications s)
   \<and> timers (removeNotification i s) = timers s"
proof -
  have c: "nid n \<noteq> i \<Longrightarrow>
      count_list (filter (\<lambda>n. nid n \<noteq> i) xs) n = count_list xs n" for n xs
    by (induction xs) auto
  show ?thesis
    using c by (auto simp: removeNotification_def)
qed

theorem removeNotification_frame_witness:
  "notifications (removeNotification ''a''
      \<lparr>notifications =
         [\<lparr>nid = ''a'', message = ''one'', ntype = NInfo, duration = Some 5000, timestamp = 1\<rparr>,
          \<lparr>nid = ''b'', message = ''two'', ntype = NError, duration = Some 0, timestamp = 2\<rparr>,
          \<lparr>nid = ''a'', message = ''three'', ntype = NInfo, duration = Some 5000, timestamp = 3\<rparr>,
          \<lparr>nid = ''c'', message = ''four'', ntype = NWarning, duration = Some 10, timestamp = 4\<rparr>],
       timers = [(10, ''c'')]\<rparr>)
   = [\<lparr>nid = ''b'', message = ''two'', ntype = NError, duration = Some 0, timestamp = 2\<rparr>,
      \<lparr>nid = ''c'', message = ''four'', ntype = NWarning, duration = Some 10, timestamp = 4\<rparr>]
   \<and> count_list (notifications (removeNotification ''a''
      \<lparr>notifications =
         [\<lparr>nid = ''a'', message = ''one'', ntype = NInfo, duration = Some 5000, timestamp = 1\<rparr>,
          \<lparr>nid = ''b'', message = ''two'', ntype = NError, duration = Some 0, timestamp = 2\<rparr>,
          \<lparr>nid = ''a'', message = ''three'', ntype = NInfo, duration = Some 5000, timestamp = 3\<rparr>,
          \<lparr>nid = ''c'', message = ''four'', ntype = NWarning, duration = Some 10, timestamp = 4\<rparr>],
       timers = [(10, ''c'')]\<rparr>))
      \<lparr>nid = ''b'', message = ''two'', ntype = NError, duration = Some 0, timestamp = 2\<rparr> = 1"
  using removeNotification_frame [of "''a''"
      "\<lparr>notifications =
         [\<lparr>nid = ''a'', message = ''one'', ntype = NInfo, duration = Some 5000, timestamp = 1\<rparr>,
          \<lparr>nid = ''b'', message = ''two'', ntype = NError, duration = Some 0, timestamp = 2\<rparr>,
          \<lparr>nid = ''a'', message = ''three'', ntype = NInfo, duration = Some 5000, timestamp = 3\<rparr>,
          \<lparr>nid = ''c'', message = ''four'', ntype = NWarning, duration = Some 10, timestamp = 4\<rparr>],
       timers = [(10, ''c'')]\<rparr>"]
  by (simp add: removeNotification_def)

subsection \<open>addNotification and the timeouts\<close>

lemma fold_remove_notifications:
  "notifications (fold (\<lambda>(d, i). removeNotification i) L s)
   = filter (\<lambda>n. nid n \<notin> snd ` set L) (notifications s)"
proof (induction L arbitrary: s)
  case Nil
  then show ?case by simp
next
  case (Cons x L)
  obtain d i where x: "x = (d, i)" by (cases x)
  have "filter (\<lambda>n. nid n \<notin> snd ` set L) (filter (\<lambda>n. nid n \<noteq> i) (notifications s))
        = filter (\<lambda>n. nid n \<notin> snd ` set (x # L)) (notifications s)"
    using x by (auto intro: filter_cong)
  then show ?case using Cons.IH [of "removeNotification i s"] x
    by (simp add: removeNotification_def)
qed

lemma fold_remove_timers:
  "timers (fold (\<lambda>(d, i). removeNotification i) L s) = timers s"
  by (induction L arbitrary: s) (auto simp: removeNotification_def)

lemma elapse_notifications:
  "notifications (elapse dt s)
   = filter (\<lambda>n. nid n \<notin> snd ` {x \<in> set (timers s). fst x \<le> dt}) (notifications s)"
proof -
  have "set (sort_key fst (filter (\<lambda>(d, i). d \<le> dt) (timers s)))
        = {x \<in> set (timers s). fst x \<le> dt}"
    by auto
  then show ?thesis
    by (simp add: elapse_def Let_def fold_remove_notifications)
qed

lemma elapse_timers:
  "timers (elapse dt s)
   = map (\<lambda>(d, i). (d - dt, i)) (filter (\<lambda>(d, i). \<not> d \<le> dt) (timers s))"
  by (simp add: elapse_def Let_def fold_remove_timers)

lemma setTimeout_delay_exact:
  "0 \<le> d \<Longrightarrow> d \<le> 2147483647 \<Longrightarrow> setTimeout_delay d = d"
  by (simp add: setTimeout_delay_def Let_def)

lemma addNotification_notifications:
  "notifications (snd (addNotification now rnd stamp msg ty dur s))
   = notifications s @
     [\<lparr>nid = generateId now rnd, message = msg,
       ntype = (case ty of None \<Rightarrow> NInfo | Some t \<Rightarrow> t),
       duration = Some (case dur of None \<Rightarrow> 5000 | Some x \<Rightarrow> x), timestamp = stamp\<rparr>]"
  by (simp add: addNotification_def setTimeout_def Let_def)

lemma addNotification_timers:
  "timers (snd (addNotification now rnd stamp msg ty dur s))
   = (if 0 < (case dur of None \<Rightarrow> 5000 | Some x \<Rightarrow> x)
      then timers s @ [(setTimeout_delay (case dur of None \<Rightarrow> 5000 | Some x \<Rightarrow> x),
                        generateId now rnd)]
      else timers s)"
  by (simp add: addNotification_def setTimeout_def Let_def)

lemma spares_no_readd: "spares i e \<Longrightarrow> no_readd i e"
  by (cases e) auto

lemma elapsed_nonneg: "list_all (no_readd i) es \<Longrightarrow> 0 \<le> elapsed es"
proof (induction es)
  case Nil
  then show ?case by simp
next
  case (Cons e es)
  then show ?case by (cases e) auto
qed

text \<open>
  While a notification with id \<open>i\<close> is in the queue, a timeout for \<open>i\<close> is pending
  that has more than nothing and at most \<open>b\<close> milliseconds to wait: an event keeps
  this true, with \<open>b\<close> reduced by the time the event takes.
\<close>

lemma step_keeps_due:
  assumes "no_readd i e"
    and "i \<in> nid ` set (notifications s) \<longrightarrow>
         (\<exists>r. (r, i) \<in> set (timers s) \<and> 0 < r \<and> r \<le> b)"
  shows "i \<in> nid ` set (notifications (notify_step e s)) \<longrightarrow>
         (\<exists>r. (r, i) \<in> set (timers (notify_step e s)) \<and> 0 < r \<and> r \<le> b - time_of e)"
proof (cases e)
  case (Add now rnd stamp msg ty dur)
  then have "generateId now rnd \<noteq> i" using assms(1) by simp
  then show ?thesis
    using Add assms(2) by (auto simp: addNotification_notifications addNotification_timers)
next
  case (Remove j)
  then show ?thesis using assms(2) by (auto simp: removeNotification_def)
next
  case Clear
  then show ?thesis by (simp add: clearNotifications_def)
next
  case (Elapse dt)
  show ?thesis
  proof
    assume in_after: "i \<in> nid ` set (notifications (notify_step e s))"
    then have q: "i \<in> nid ` set (notifications s)"
      and not_due: "i \<notin> snd ` {x \<in> set (timers s). fst x \<le> dt}"
      using Elapse by (auto simp: elapse_notifications)
    from q assms(2) obtain r where r: "(r, i) \<in> set (timers s)" "0 < r" "r \<le> b" by blast
    have late: "\<not> r \<le> dt" using r(1) not_due by force
    then have "(r - dt, i) \<in> set (timers (elapse dt s))"
      using r(1) by (force simp: elapse_timers)
    moreover have "0 < r - dt" "r - dt \<le> b - dt" using late r(3) by simp_all
    ultimately show "\<exists>r. (r, i) \<in> set (timers (notify_step e s)) \<and> 0 < r \<and> r \<le> b - time_of e"
      using Elapse by auto
  qed
qed

lemma run_removes_when_due:
  "list_all (no_readd i) es \<Longrightarrow>
   (i \<in> nid ` set (notifications s) \<longrightarrow> (\<exists>r. (r, i) \<in> set (timers s) \<and> 0 < r \<and> r \<le> b)) \<Longrightarrow>
   b \<le> elapsed es \<Longrightarrow> i \<notin> nid ` set (notifications (notify_run es s))"
proof (induction es arbitrary: s b)
  case Nil
  then show ?case by auto
next
  case (Cons e es)
  have "i \<in> nid ` set (notifications (notify_step e s)) \<longrightarrow>
         (\<exists>r. (r, i) \<in> set (timers (notify_step e s)) \<and> 0 < r \<and> r \<le> b - time_of e)"
    using Cons.prems(1,2) step_keeps_due [of i e s b] by simp
  moreover have "b - time_of e \<le> elapsed es" using Cons.prems(3) by simp
  ultimately show ?case using Cons.IH [of "notify_step e s" "b - time_of e"] Cons.prems(1)
    by simp
qed

text \<open>
  While every pending timeout for \<open>i\<close> has at least \<open>b\<close> milliseconds to wait, an event
  that takes less than \<open>b\<close> and spares \<open>i\<close> keeps a notification with that id in the
  queue, and the timeouts for \<open>i\<close> then have at least the rest of \<open>b\<close> to wait.
\<close>

lemma step_keeps_present:
  assumes "spares i e" and "n \<in> set (notifications s)" and "nid n = i"
    and "\<forall>r. (r, i) \<in> set (timers s) \<longrightarrow> b \<le> r" and "time_of e < b"
  shows "n \<in> set (notifications (notify_step e s))
         \<and> (\<forall>r. (r, i) \<in> set (timers (notify_step e s)) \<longrightarrow> b - time_of e \<le> r)"
proof (cases e)
  case (Add now rnd stamp msg ty dur)
  then have "generateId now rnd \<noteq> i" using assms(1) by simp
  then show ?thesis
    using Add assms(2,4) by (auto simp: addNotification_notifications addNotification_timers)
next
  case (Remove j)
  then show ?thesis using assms by (auto simp: removeNotification_def)
next
  case Clear
  then show ?thesis using assms(1) by simp
next
  case (Elapse dt)
  then have dt: "dt < b" using assms(5) by simp
  have "i \<notin> snd ` {x \<in> set (timers s). fst x \<le> dt}" using assms(4) dt by force
  then have "n \<in> set (notifications (elapse dt s))"
    using assms(2,3) by (simp add: elapse_notifications)
  moreover have "\<forall>r. (r, i) \<in> set (timers (elapse dt s)) \<longrightarrow> b - dt \<le> r"
    using assms(4) by (force simp: elapse_timers)
  ultimately show ?thesis using Elapse by simp
qed

lemma run_keeps_present:
  "list_all (spares i) es \<Longrightarrow> n \<in> set (notifications s) \<Longrightarrow> nid n = i \<Longrightarrow>
   \<forall>r. (r, i) \<in> set (timers s) \<longrightarrow> b \<le> r \<Longrightarrow> elapsed es < b \<Longrightarrow>
   n \<in> set (notifications (notify_run es s))"
proof (induction es arbitrary: s b)
  case Nil
  then show ?case by simp
next
  case (Cons e es)
  have "list_all (no_readd i) es" using Cons.prems(1) spares_no_readd by (simp add: list_all_iff)
  then have "0 \<le> elapsed es" by (rule elapsed_nonneg)
  then have short: "time_of e < b" using Cons.prems(5) by simp
  have step: "n \<in> set (notifications (notify_step e s))
         \<and> (\<forall>r. (r, i) \<in> set (timers (notify_step e s)) \<longrightarrow> b - time_of e \<le> r)"
    using Cons.prems step_keeps_present [of i e n s b] short by simp
  have "elapsed es < b - time_of e" using Cons.prems(5) by simp
  then show ?case
    using Cons.IH [of "notify_step e s" "b - time_of e"] Cons.prems(1,3) step by simp
qed

text \<open>
  Claim C5, as amended. A call of \<open>addNotification\<close> returns the generated id and
  appends the new notification, with the given message, the type and duration after
  defaults, and the clock reading, at the end of the queue. With a duration above zero
  it hands one timeout for its id to \<open>setTimeout\<close>. For a duration from 1 to
  2147483647 that timeout waits exactly the duration: once that much time has passed,
  over any run of events in which the id is not generated again, no notification with
  the id is in the queue; and, the id being carried by no timeout pending before the
  call, the notification is still in the queue as long as less time has passed and
  nothing removes its id on request. With a duration of zero (or below) the call
  schedules nothing and, the id being carried by no pending timeout, the notification
  stays in the queue over any run of events that does not remove its id on request.
\<close>

theorem addNotification_schedule:
  assumes "addNotification now rnd stamp msg ty dur s = (i, s')"
    and "d = (case dur of None \<Rightarrow> 5000 | Some x \<Rightarrow> x)"
    and "n = \<lparr>nid = i, message = msg, ntype = (case ty of None \<Rightarrow> NInfo | Some t \<Rightarrow> t),
              duration = Some d, timestamp = stamp\<rparr>"
  shows "i = generateId now rnd
     \<and> notifications s' = notifications s @ [n]
     \<and> (0 < d \<longrightarrow> timers s' = timers s @ [(setTimeout_delay d, i)])
     \<and> (0 < d \<and> d \<le> 2147483647 \<longrightarrow>
          setTimeout_delay d = d
          \<and> (\<forall>es. list_all (no_readd i) es \<and> d \<le> elapsed es \<longrightarrow>
                i \<notin> nid ` set (notifications (notify_run es s')))
          \<and> (i \<notin> snd ` set (timers s) \<longrightarrow>
               (\<forall>es. list_all (spares i) es \<and> elapsed es < d \<longrightarrow>
                  n \<in> set (notifications (notify_run es s')))))
     \<and> (d \<le> 0 \<longrightarrow> timers s' = timers s
          \<and> (i \<notin> snd ` set (timers s) \<longrightarrow>
               (\<forall>es. list_all (spares i) es \<longrightarrow> n \<in> set (notifications (notify_run es s')))))"
proof -
  have s': "s' = snd (addNotification now rnd stamp msg ty dur s)" using assms(1) by simp
  have i: "i = generateId now rnd" using assms(1) by (auto simp: addNotification_def Let_def)
  have q: "notifications s' = notifications s @ [n]"
    using assms(2,3) i by (simp add: s' addNotification_notifications)
  have n: "n \<in> set (notifications s')" "nid n = i" using q assms(3) by simp_all
  have pos: "timers s' = timers s @ [(setTimeout_delay d, i)]" if "0 < d"
    using that assms(2) i by (simp add: s' addNotification_timers)
  have none: "timers s' = timers s" if "d \<le> 0"
    using that assms(2) by (simp add: s' addNotification_timers)
  have exact: "setTimeout_delay d = d" if "0 < d" "d \<le> 2147483647"
    using that by (simp add: setTimeout_delay_exact)
  have gone: "i \<notin> nid ` set (notifications (notify_run es s'))"
    if "0 < d" "d \<le> 2147483647" "list_all (no_readd i) es" "d \<le> elapsed es" for es
  proof -
    have "(d, i) \<in> set (timers s')" using pos exact that(1,2) by simp
    then have "i \<in> nid ` set (notifications s') \<longrightarrow>
        (\<exists>r. (r, i) \<in> set (timers s') \<and> 0 < r \<and> r \<le> d)"
      using that(1) by auto
    then show ?thesis using that(3,4) run_removes_when_due [of i es s' d] by simp
  qed
  have still: "n \<in> set (notifications (notify_run es s'))"
    if "0 < d" "d \<le> 2147483647" "i \<notin> snd ` set (timers s)" "list_all (spares i) es"
      "elapsed es < d" for es
  proof -
    have "timers s' = timers s @ [(d, i)]" using pos exact that(1,2) by simp
    then have "\<forall>r. (r, i) \<in> set (timers s') \<longrightarrow> d \<le> r" using that(3) by force
    then show ?thesis using that(4,5) n run_keeps_present [of i es n s' d] by simp
  qed
  have stays: "n \<in> set (notifications (notify_run es s'))"
    if "d \<le> 0" "i \<notin> snd ` set (timers s)" "list_all (spares i) es" for es
  proof -
    have "\<forall>r. (r, i) \<in> set (timers s') \<longrightarrow> elapsed es + 1 \<le> r"
      using none that(1,2) by force
    then show ?thesis
      using that(3) n run_keeps_present [of i es n s' "elapsed es + 1"] by simp
  qed
  show ?thesis using i q pos exact gone still none stays by blast
qed

text \<open>
  The theorem at work. A notification added for 100 ms is still in the queue after 99 ms
  and gone after 120 ms, whatever else is added or removed in between; one added with
  duration 0 to the empty provider is still there after 1000 ms, another addition, the
  removal of another id and 99999 ms more.
\<close>

theorem addNotification_schedule_witness:
  "addNotification 5 ''0.abc'' 5 ''x'' (Some NInfo) (Some 100) initialNotificationState = (''5-abc'', \<lparr>notifications = [\<lparr>nid = ''5-abc'', message = ''x'', ntype = NInfo, duration = Some 100, timestamp = 5\<rparr>], timers = [(100, ''5-abc'')]\<rparr>)
   \<and> (0::int) < 100 \<and> (100::int) \<le> 2147483647
   \<and> list_all (no_readd ''5-abc'') [Elapse 60, Add 7 ''0.xyz'' 7 ''y'' None (Some 0), Remove ''q'', Elapse 60] \<and> 100 \<le> elapsed [Elapse 60, Add 7 ''0.xyz'' 7 ''y'' None (Some 0), Remove ''q'', Elapse 60]
   \<and> ''5-abc'' \<notin> nid ` set (notifications (notify_run [Elapse 60, Add 7 ''0.xyz'' 7 ''y'' None (Some 0), Remove ''q'', Elapse 60] (\<lparr>notifications = [\<lparr>nid = ''5-abc'', message = ''x'', ntype = NInfo, duration = Some 100, timestamp = 5\<rparr>], timers = [(100, ''5-abc'')]\<rparr>)))
   \<and> ''5-abc'' \<notin> snd ` set (timers initialNotificationState)
   \<and> list_all (spares ''5-abc'') [Elapse 60, Add 7 ''0.xyz'' 7 ''y'' None (Some 0), Remove ''q'', Elapse 39] \<and> elapsed [Elapse 60, Add 7 ''0.xyz'' 7 ''y'' None (Some 0), Remove ''q'', Elapse 39] < 100
   \<and> \<lparr>nid = ''5-abc'', message = ''x'', ntype = NInfo, duration = Some 100, timestamp = 5\<rparr> \<in> set (notifications (notify_run [Elapse 60, Add 7 ''0.xyz'' 7 ''y'' None (Some 0), Remove ''q'', Elapse 39] (\<lparr>notifications = [\<lparr>nid = ''5-abc'', message = ''x'', ntype = NInfo, duration = Some 100, timestamp = 5\<rparr>], timers = [(100, ''5-abc'')]\<rparr>)))
   \<and> addNotification 5 ''0.abc'' 5 ''x'' (Some NSuccess) (Some 0) initialNotificationState = (''5-abc'', \<lparr>notifications = [\<lparr>nid = ''5-abc'', message = ''x'', ntype = NSuccess, duration = Some 0, timestamp = 5\<rparr>], timers = []\<rparr>)
   \<and> list_all (spares ''5-abc'') [Elapse 1000, Add 7 ''0.xyz'' 7 ''y'' None None, Remove ''q'', Elapse 99999]
   \<and> \<lparr>nid = ''5-abc'', message = ''x'', ntype = NSuccess, duration = Some 0, timestamp = 5\<rparr> \<in> set (notifications (notify_run [Elapse 1000, Add 7 ''0.xyz'' 7 ''y'' None None, Remove ''q'', Elapse 99999] (\<lparr>notifications = [\<lparr>nid = ''5-abc'', message = ''x'', ntype = NSuccess, duration = Some 0, timestamp = 5\<rparr>], timers = []\<rparr>)))"
proof -
  have a: "addNotification 5 ''0.abc'' 5 ''x'' (Some NInfo) (Some 100) initialNotificationState = (''5-abc'', \<lparr>notifications = [\<lparr>nid = ''5-abc'', message = ''x'', ntype = NInfo, duration = Some 100, timestamp = 5\<rparr>], timers = [(100, ''5-abc'')]\<rparr>)"
    by (simp add: notify_simps)
  have b: "addNotification 5 ''0.abc'' 5 ''x'' (Some NSuccess) (Some 0) initialNotificationState = (''5-abc'', \<lparr>notifications = [\<lparr>nid = ''5-abc'', message = ''x'', ntype = NSuccess, duration = Some 0, timestamp = 5\<rparr>], timers = []\<rparr>)"
    by (simp add: notify_simps)
  have r: "(0::int) < 100 \<and> (100::int) \<le> 2147483647" by simp
  have e1: "list_all (no_readd ''5-abc'') [Elapse 60, Add 7 ''0.xyz'' 7 ''y'' None (Some 0), Remove ''q'', Elapse 60] \<and> 100 \<le> elapsed [Elapse 60, Add 7 ''0.xyz'' 7 ''y'' None (Some 0), Remove ''q'', Elapse 60]"
    by (simp add: render_simps)
  have e2: "list_all (spares ''5-abc'') [Elapse 60, Add 7 ''0.xyz'' 7 ''y'' None (Some 0), Remove ''q'', Elapse 39] \<and> elapsed [Elapse 60, Add 7 ''0.xyz'' 7 ''y'' None (Some 0), Remove ''q'', Elapse 39] < 100"
    by (simp add: render_simps)
  have e3: "list_all (spares ''5-abc'') [Elapse 1000, Add 7 ''0.xyz'' 7 ''y'' None None, Remove ''q'', Elapse 99999]"
    by (simp add: render_simps)
  have fresh: "''5-abc'' \<notin> snd ` set (timers initialNotificationState)"
    by (simp add: initialNotificationState_def)
  note ta = addNotification_schedule [OF a refl refl]
  note tb = addNotification_schedule [OF b refl refl]
  have "\<forall>es. list_all (no_readd ''5-abc'') es \<and> 100 \<le> elapsed es \<longrightarrow>
      ''5-abc'' \<notin> nid ` set (notifications (notify_run es (\<lparr>notifications = [\<lparr>nid = ''5-abc'', message = ''x'', ntype = NInfo, duration = Some 100, timestamp = 5\<rparr>], timers = [(100, ''5-abc'')]\<rparr>)))"
    using ta by (simp add: render_simps)
  then have c1: "''5-abc'' \<notin> nid ` set (notifications (notify_run [Elapse 60, Add 7 ''0.xyz'' 7 ''y'' None (Some 0), Remove ''q'', Elapse 60] (\<lparr>notifications = [\<lparr>nid = ''5-abc'', message = ''x'', ntype = NInfo, duration = Some 100, timestamp = 5\<rparr>], timers = [(100, ''5-abc'')]\<rparr>)))"
    using e1 by blast
  have "\<forall>es. list_all (spares ''5-abc'') es \<and> elapsed es < 100 \<longrightarrow>
      \<lparr>nid = ''5-abc'', message = ''x'', ntype = NInfo, duration = Some 100, timestamp = 5\<rparr> \<in> set (notifications (notify_run es (\<lparr>notifications = [\<lparr>nid = ''5-abc'', message = ''x'', ntype = NInfo, duration = Some 100, timestamp = 5\<rparr>], timers = [(100, ''5-abc'')]\<rparr>)))"
    using ta fresh by (simp add: render_simps)
  then have c2: "\<lparr>nid = ''5-abc'', message = ''x'', ntype = NInfo, duration = Some 100, timestamp = 5\<rparr> \<in> set (notifications (notify_run [Elapse 60, Add 7 ''0.xyz'' 7 ''y'' None (Some 0), Remove ''q'', Elapse 39] (\<lparr>notifications = [\<lparr>nid = ''5-abc'', message = ''x'', ntype = NInfo, duration = Some 100, timestamp = 5\<rparr>], timers = [(100, ''5-abc'')]\<rparr>)))"
    using e2 by blast
  have "\<forall>es. list_all (spares ''5-abc'') es \<longrightarrow>
      \<lparr>nid = ''5-abc'', message = ''x'', ntype = NSuccess, duration = Some 0, timestamp = 5\<rparr> \<in> set (notifications (notify_run es (\<lparr>notifications = [\<lparr>nid = ''5-abc'', message = ''x'', ntype = NSuccess, duration = Some 0, timestamp = 5\<rparr>], timers = []\<rparr>)))"
    using tb fresh by (simp add: render_simps)
  then have c3: "\<lparr>nid = ''5-abc'', message = ''x'', ntype = NSuccess, duration = Some 0, timestamp = 5\<rparr> \<in> set (notifications (notify_run [Elapse 1000, Add 7 ''0.xyz'' 7 ''y'' None None, Remove ''q'', Elapse 99999] (\<lparr>notifications = [\<lparr>nid = ''5-abc'', message = ''x'', ntype = NSuccess, duration = Some 0, timestamp = 5\<rparr>], timers = []\<rparr>)))"
    using e3 by blast
  show ?thesis using a b r e1 e2 e3 fresh c1 c2 c3 by blast
qed

text \<open>
  Claim C5 as stated fails for durations beyond what \<^verbatim>\<open>setTimeout\<close> takes. A
  duration of 2147483648 ms does not fit a signed 32-bit delay: the removal is not
  scheduled after that delay, and the notification is gone within a millisecond.
\<close>

theorem addNotification_delay_wraps:
  "notifications (notify_run
      [Add 5 ''0.abc'' 5 ''x'' (Some NInfo) (Some 2147483648), Elapse 1]
      initialNotificationState) = []"
  by (simp add: notify_simps)

section \<open>Properties of the throttled callback\<close>

lemma throttled_calls_length: "length (throttled_calls delay h ts) = length ts"
  by (induction ts arbitrary: h) (auto simp: throttled_def)

lemma reference_time_Cons:
  "reference_time c ((t, e) # log) = reference_time (if e then t else c) log"
  by (simp add: reference_time_def split: option.splits)

lemma throttled_calls_Cons:
  "throttled_calls delay h (t # ts) =
     (delay \<le> t - lastRun h) #
       throttled_calls delay (if delay \<le> t - lastRun h then h\<lparr>lastRun := t\<rparr> else h) ts"
  by (simp add: throttled_def)

declare throttled_calls.simps(2) [simp del]

lemma throttled_calls_rule:
  "i < length ts \<Longrightarrow>
   throttled_calls delay h ts ! i
   = (delay \<le> ts ! i - reference_time (lastRun h) (take i (zip ts (throttled_calls delay h ts))))"
proof (induction ts arbitrary: h i)
  case Nil
  then show ?case by simp
next
  case (Cons t ts)
  show ?case
  proof (cases i)
    case 0
    then show ?thesis by (simp add: throttled_calls_Cons reference_time_def)
  next
    case (Suc k)
    then have k: "k < length ts" using Cons.prems by simp
    let ?h = "if delay \<le> t - lastRun h then h\<lparr>lastRun := t\<rparr> else h"
    have "lastRun ?h = (if delay \<le> t - lastRun h then t else lastRun h)" by simp
    then show ?thesis
      using Cons.IH [OF k, of ?h] Suc
      by (simp only: throttled_calls_Cons nth_Cons_Suc zip_Cons_Cons take_Suc_Cons
          reference_time_Cons)
  qed
qed

lemma executed_after_reference:
  "0 \<le> delay \<Longrightarrow> j < length ts \<Longrightarrow> throttled_calls delay h ts ! j \<Longrightarrow>
   delay \<le> ts ! j - lastRun h"
proof (induction ts arbitrary: h j)
  case Nil
  then show ?case by simp
next
  case (Cons t ts)
  show ?case
  proof (cases j)
    case 0
    then show ?thesis using Cons.prems by (simp add: throttled_calls_Cons)
  next
    case (Suc k)
    let ?h = "if delay \<le> t - lastRun h then h\<lparr>lastRun := t\<rparr> else h"
    have "delay \<le> ts ! k - lastRun ?h"
      using Cons.IH [of k ?h] Cons.prems Suc by (simp add: throttled_calls_Cons)
    moreover have "lastRun h \<le> lastRun ?h" using Cons.prems(1) by simp
    ultimately show ?thesis using Suc by simp
  qed
qed

lemma executions_apart:
  "0 \<le> delay \<Longrightarrow> i < j \<Longrightarrow> j < length ts \<Longrightarrow>
   throttled_calls delay h ts ! i \<Longrightarrow> throttled_calls delay h ts ! j \<Longrightarrow>
   delay \<le> ts ! j - ts ! i"
proof (induction ts arbitrary: h i j)
  case Nil
  then show ?case by simp
next
  case (Cons t ts)
  obtain k where j: "j = Suc k" using Cons.prems(2) by (cases j) auto
  let ?h = "if delay \<le> t - lastRun h then h\<lparr>lastRun := t\<rparr> else h"
  show ?case
  proof (cases i)
    case 0
    then have ex: "delay \<le> t - lastRun h" using Cons.prems(4) by (simp add: throttled_calls_Cons)
    have "delay \<le> ts ! k - lastRun ?h"
      using executed_after_reference [of delay k ts ?h] Cons.prems j
      by (simp add: throttled_calls_Cons)
    then show ?thesis using ex 0 j by simp
  next
    case (Suc m)
    then show ?thesis
      using Cons.IH [of m k ?h] Cons.prems j by (simp add: throttled_calls_Cons)
  qed
qed

text \<open>
  Claim C2, as amended. For every creation time, delay and sequence of calls of the
  throttled function: each call is answered; a call runs the callback if and only if at
  least \<open>delay\<close> milliseconds separate it from the last execution or, while nothing has
  run yet, from the creation of the hook; from the first execution on this is the rule in
  the specification's words; any two calls that ran are at least \<open>delay\<close> apart, so no
  window shorter than \<open>delay\<close> holds two executions; and a call that is dropped leaves
  the hook as it was, so nothing is queued.
\<close>

theorem throttled_rule:
  "length (throttled_calls delay (useThrottle created) ts) = length ts
   \<and> (\<forall>i < length ts.
        throttled_calls delay (useThrottle created) ts ! i
        = (delay \<le> ts ! i
             - reference_time created
                 (take i (zip ts (throttled_calls delay (useThrottle created) ts)))))
   \<and> (\<forall>i < length ts.
        last_execution (take i (zip ts (throttled_calls delay (useThrottle created) ts))) \<noteq> None \<longrightarrow>
        throttled_calls delay (useThrottle created) ts ! i
        = spec_should_run delay
            (take i (zip ts (throttled_calls delay (useThrottle created) ts))) (ts ! i))
   \<and> (\<forall>i j. i < j \<and> j < length ts
          \<and> throttled_calls delay (useThrottle created) ts ! i
          \<and> throttled_calls delay (useThrottle created) ts ! j \<longrightarrow>
          delay \<le> \<bar>ts ! j - ts ! i\<bar>)
   \<and> (\<forall>now h. \<not> snd (throttled delay now h) \<longrightarrow> fst (throttled delay now h) = h)"
proof -
  let ?ex = "throttled_calls delay (useThrottle created) ts"
  have r: "?ex ! i = (delay \<le> ts ! i - reference_time created (take i (zip ts ?ex)))"
    if "i < length ts" for i
    using throttled_calls_rule [OF that, of delay "useThrottle created"]
    by (simp add: useThrottle_def)
  have s: "?ex ! i = spec_should_run delay (take i (zip ts ?ex)) (ts ! i)"
    if "i < length ts" "last_execution (take i (zip ts ?ex)) \<noteq> None" for i
    using r [OF that(1)] that(2)
    by (auto simp: spec_should_run_def reference_time_def)
  have a: "delay \<le> \<bar>ts ! j - ts ! i\<bar>"
    if "i < j" "j < length ts" "?ex ! i" "?ex ! j" for i j
  proof (cases "0 \<le> delay")
    case True
    then have "delay \<le> ts ! j - ts ! i" using that by (rule executions_apart)
    then show ?thesis by simp
  next
    case False
    then show ?thesis by simp
  qed
  have q: "fst (throttled delay now h) = h" if "\<not> snd (throttled delay now h)" for now h
    using that by (simp add: throttled_def split: if_splits)
  show ?thesis using throttled_calls_length r s a q by blast
qed

text \<open>
  The theorem at work on a hook created at 1000 with a delay of 500 and calls at 1100,
  1500, 1600, 1999, 2000 and 2100: the calls at 1500 and 2000 run, 500 ms apart.
\<close>

theorem throttled_rule_witness:
  "(1::nat) < 4 \<and> 4 < length ([1100, 1500, 1600, 1999, 2000, 2100] :: int list)
   \<and> throttled_calls 500 (useThrottle 1000) [1100, 1500, 1600, 1999, 2000, 2100] ! 1 \<and> throttled_calls 500 (useThrottle 1000) [1100, 1500, 1600, 1999, 2000, 2100] ! 4
   \<and> (500::int) \<le> \<bar>[1100, 1500, 1600, 1999, 2000, 2100] ! 4 - [1100, 1500, 1600, 1999, 2000, 2100] ! 1\<bar>
   \<and> last_execution (take 4 (zip [1100, 1500, 1600, 1999, 2000, 2100] (throttled_calls 500 (useThrottle 1000) [1100, 1500, 1600, 1999, 2000, 2100]))) \<noteq> None
   \<and> throttled_calls 500 (useThrottle 1000) [1100, 1500, 1600, 1999, 2000, 2100] ! 4 = spec_should_run 500 (take 4 (zip [1100, 1500, 1600, 1999, 2000, 2100] (throttled_calls 500 (useThrottle 1000) [1100, 1500, 1600, 1999, 2000, 2100]))) ([1100, 1500, 1600, 1999, 2000, 2100] ! 4)
   \<and> throttled_calls 500 (useThrottle 1000) [1100, 1500, 1600, 1999, 2000, 2100] ! 4 = (500 \<le> [1100, 1500, 1600, 1999, 2000, 2100] ! 4 - reference_time 1000 (take 4 (zip [1100, 1500, 1600, 1999, 2000, 2100] (throttled_calls 500 (useThrottle 1000) [1100, 1500, 1600, 1999, 2000, 2100]))))
   \<and> \<not> snd (throttled 500 1100 (useThrottle 1000))
   \<and> fst (throttled 500 1100 (useThrottle 1000)) = useThrottle 1000"
proof -
  note t = throttled_rule [of 500 1000 "[1100, 1500, 1600, 1999, 2000, 2100]"]
  have e: "throttled_calls 500 (useThrottle 1000) [1100, 1500, 1600, 1999, 2000, 2100] = [False, True, False, False, True, False]"
    by (simp add: throttled_calls_Cons useThrottle_def)
  have i: "(1::nat) < 4 \<and> 4 < length ([1100, 1500, 1600, 1999, 2000, 2100] :: int list)"
    by simp
  have x: "throttled_calls 500 (useThrottle 1000) [1100, 1500, 1600, 1999, 2000, 2100] ! 1 \<and> throttled_calls 500 (useThrottle 1000) [1100, 1500, 1600, 1999, 2000, 2100] ! 4"
    by (simp add: e)
  have l: "last_execution (take 4 (zip [1100, 1500, 1600, 1999, 2000, 2100] (throttled_calls 500 (useThrottle 1000) [1100, 1500, 1600, 1999, 2000, 2100]))) \<noteq> None"
    by (simp add: e)
  have d: "\<not> snd (throttled 500 1100 (useThrottle 1000))"
    by (simp add: throttled_def useThrottle_def)
  have r: "throttled_calls 500 (useThrottle 1000) [1100, 1500, 1600, 1999, 2000, 2100] ! 4 = (500 \<le> [1100, 1500, 1600, 1999, 2000, 2100] ! 4 - reference_time 1000 (take 4 (zip [1100, 1500, 1600, 1999, 2000, 2100] (throttled_calls 500 (useThrottle 1000) [1100, 1500, 1600, 1999, 2000, 2100]))))"
    using t [THEN conjunct2, THEN conjunct1, rule_format, of 4] i by simp
  have s: "throttled_calls 500 (useThrottle 1000) [1100, 1500, 1600, 1999, 2000, 2100] ! 4 = spec_should_run 500 (take 4 (zip [1100, 1500, 1600, 1999, 2000, 2100] (throttled_calls 500 (useThrottle 1000) [1100, 1500, 1600, 1999, 2000, 2100]))) ([1100, 1500, 1600, 1999, 2000, 2100] ! 4)"
    using t [THEN conjunct2, THEN conjunct2, THEN conjunct1, rule_format, of 4] i l by blast
  have a: "(500::int) \<le> \<bar>[1100, 1500, 1600, 1999, 2000, 2100] ! 4 - [1100, 1500, 1600, 1999, 2000, 2100] ! 1\<bar>"
    using t [THEN conjunct2, THEN conjunct2, THEN conjunct2, THEN conjunct1, rule_format, of 1 4]
      i x by blast
  have q: "fst (throttled 500 1100 (useThrottle 1000)) = useThrottle 1000"
    using t [THEN conjunct2, THEN conjunct2, THEN conjunct2, THEN conjunct2, rule_format,
        of 1100 "useThrottle 1000"] d by blast
  show ?thesis using i x a l s r d q by blast
qed

text \<open>
  Claim C2 as stated fails for calls made before the first execution. A hook created at
  1000 with a delay of 500 drops a call at 1100, although no execution precedes it: the
  reference starts at the creation time, not at an execution.
\<close>

theorem throttled_first_call_dropped: "throttled_calls 500 (useThrottle 1000) [1100] = [False] \<and> spec_should_run 500 [] 1100"
  by (simp add: throttled_calls_Cons useThrottle_def spec_should_run_def)

section \<open>Properties of the async operation wrapper\<close>

subsection \<open>Reachable states\<close>

lemma async_run_reachable:
  "reachable String h \<Longrightarrow> reachable String (async_run String es h)"
proof (induction es arbitrary: h)
  case Nil
  then show ?case by simp
next
  case (Cons e es)
  show ?case
  proof (cases "async_step String e h")
    case (Inl x)
    then show ?thesis using Cons by simp
  next
    case (Inr h')
    then have "reachable String h'" using Cons.prems by (rule reachable.step [rotated])
    then show ?thesis using Cons.IH Inr by simp
  qed
qed

lemma step_shape:
  "state_shape (state h) \<Longrightarrow> async_step String e h = Inr h' \<Longrightarrow> state_shape (state h')"
proof (cases e)
  case Execute
  assume "async_step String e h = Inr h'"
  then show ?thesis using Execute by (auto simp: execute_begin_def state_shape_def)
next
  case (Settle outcome)
  assume "state_shape (state h)" and "async_step String e h = Inr h'"
  then show ?thesis using Settle
    by (auto simp: execute_settle_def state_shape_def
        split: settled.splits thrown.splits option.splits if_splits)
next
  case Detach
  assume "state_shape (state h)" and "async_step String e h = Inr h'"
  then show ?thesis using Detach by (auto simp: cleanup_def)
qed

lemma reachable_shape: "reachable String h \<Longrightarrow> state_shape (state h)"
proof (induction rule: reachable.induct)
  case mount
  then show ?case by (simp add: useAsync_mount_def initialAsyncState_def state_shape_def)
next
  case (step h e h')
  then show ?case using step_shape by blast
qed

text \<open>
  Claim C3, as amended. In every state that the hook reaches from its initial state by
  starting executions, settling them and detaching: with status idle or loading both
  \<^verbatim>\<open>data\<close> and \<^verbatim>\<open>error\<close> are null; with status error \<^verbatim>\<open>data\<close> is null and
  \<^verbatim>\<open>error\<close> is not, so exactly one is non-null; with status success \<^verbatim>\<open>error\<close> is
  null and \<^verbatim>\<open>data\<close> is the value the operation resolved with, so exactly one is
  non-null if and only if that value is not null. The last conjunct says that this
  value is arbitrary: while mounted, an operation resolving with any \<open>response\<close>,
  \<^verbatim>\<open>null\<close> included, leads to a reachable success state holding it.
\<close>

theorem reachable_data_error:
  assumes "reachable String h"
  shows "(status (state h) = Idle \<or> status (state h) = Loading \<longrightarrow>
            data (state h) = None \<and> error (state h) = None)
       \<and> (status (state h) = Error \<longrightarrow>
            data (state h) = None \<and> error (state h) \<noteq> None \<and> exactly_one_non_null (state h))
       \<and> (status (state h) = Success \<longrightarrow>
            error (state h) = None
            \<and> exactly_one_non_null (state h) = (data (state h) \<noteq> None))
       \<and> (isMounted h \<longrightarrow>
            (\<forall>response. \<exists>h'. execute_settle String (Resolved response) h = Inr h'
                \<and> reachable String h' \<and> status (state h') = Success
                \<and> data (state h') = response))"
proof -
  have s: "state_shape (state h)" using assms by (rule reachable_shape)
  have a: "status (state h) = Idle \<or> status (state h) = Loading \<longrightarrow>
            data (state h) = None \<and> error (state h) = None"
    using s by (auto simp: state_shape_def)
  have b: "status (state h) = Error \<longrightarrow>
            data (state h) = None \<and> error (state h) \<noteq> None \<and> exactly_one_non_null (state h)"
    using s by (auto simp: state_shape_def exactly_one_non_null_def)
  have c: "status (state h) = Success \<longrightarrow>
            error (state h) = None
            \<and> exactly_one_non_null (state h) = (data (state h) \<noteq> None)"
    using s by (auto simp: state_shape_def exactly_one_non_null_def)
  have d: "\<exists>h'. execute_settle String (Resolved response) h = Inr h'
                \<and> reachable String h' \<and> status (state h') = Success
                \<and> data (state h') = response" if m: "isMounted h" for response
  proof -
    let ?h = "h\<lparr>state := \<lparr>status = Success, data = response, error = None, isLoading = False\<rparr>\<rparr>"
    have e: "execute_settle String (Resolved response) h = Inr ?h"
      using m by (simp add: execute_settle_def)
    then have "async_step String (Settle (Resolved response)) h = Inr ?h" by simp
    then have "reachable String ?h" using assms reachable.step by blast
    then show ?thesis using e by simp
  qed
  show ?thesis using a b c d by blast
qed

text \<open>The theorem at work after an operation rejected with the number 404.\<close>

theorem reachable_data_error_witness:
  "reachable String_of
     (async_run String_of [Execute, Settle (Rejected (NonError (ThrownInt 404)))]
        (useAsync_mount :: nat AsyncHook))
   \<and> status (state (async_run String_of [Execute, Settle (Rejected (NonError (ThrownInt 404)))]
        (useAsync_mount :: nat AsyncHook))) = Error
   \<and> exactly_one_non_null
        (state (async_run String_of [Execute, Settle (Rejected (NonError (ThrownInt 404)))]
           (useAsync_mount :: nat AsyncHook)))"
proof -
  have "reachable String_of (useAsync_mount :: nat AsyncHook)" by (rule reachable.mount)
  then have r: "reachable String_of
     (async_run String_of [Execute, Settle (Rejected (NonError (ThrownInt 404)))]
        (useAsync_mount :: nat AsyncHook))"
    by (rule async_run_reachable)
  have e: "status (state (async_run String_of
       [Execute, Settle (Rejected (NonError (ThrownInt 404)))]
        (useAsync_mount :: nat AsyncHook))) = Error"
    by (simp add: execute_settle_def execute_begin_def useAsync_mount_def)
  show ?thesis using reachable_data_error [OF r] r e by blast
qed

text \<open>
  Claim C3 as stated fails: after \<^verbatim>\<open>execute()\<close> of an operation that resolves with
  \<^verbatim>\<open>null\<close> the status is success and both \<^verbatim>\<open>data\<close> and \<^verbatim>\<open>error\<close> are null.
\<close>

theorem success_with_null_data:
  "reachable String_of
     (async_run String_of [Execute, Settle (Resolved None)] (useAsync_mount :: nat AsyncHook))
   \<and> status (state (async_run String_of [Execute, Settle (Resolved None)]
        (useAsync_mount :: nat AsyncHook))) = Success
   \<and> \<not> exactly_one_non_null (state (async_run String_of [Execute, Settle (Resolved None)]
        (useAsync_mount :: nat AsyncHook)))"
proof -
  have "reachable String_of (useAsync_mount :: nat AsyncHook)" by (rule reachable.mount)
  then have "reachable String_of
     (async_run String_of [Execute, Settle (Resolved None)] (useAsync_mount :: nat AsyncHook))"
    by (rule async_run_reachable)
  then show ?thesis
    by (simp add: execute_settle_def execute_begin_def useAsync_mount_def
        exactly_one_non_null_def)
qed

subsection \<open>Detaching\<close>

lemma detached_settle: "\<not> isMounted h \<Longrightarrow> execute_settle String outcome h = Inr h"
  by (simp add: execute_settle_def split: settled.splits)

lemma detached_run:
  "\<not> isMounted h \<Longrightarrow> list_all is_settle es \<Longrightarrow> async_run String es h = h"
proof (induction es)
  case Nil
  then show ?case by simp
next
  case (Cons e es)
  then obtain outcome where "e = Settle outcome" by (cases e) auto
  then show ?case using Cons by (simp add: detached_settle)
qed

text \<open>
  Claim C6. Once the cleanup has cleared the mounted flag, every resolution and every
  rejection that arrives afterwards, of whatever value and however many of them, returns
  normally and writes nothing: the state is the one held at the moment of detaching, and
  the flag stays cleared.
\<close>

theorem detach_discards_outcome:
  "list_all is_settle es \<Longrightarrow>
   (\<forall>outcome. execute_settle String outcome (cleanup h) = Inr (cleanup h))
   \<and> async_run String (Detach # es) h = cleanup h
   \<and> state (async_run String (Detach # es) h) = state h
   \<and> \<not> isMounted (async_run String (Detach # es) h)"
proof -
  assume es: "list_all is_settle es"
  have m: "\<not> isMounted (cleanup h)" by (simp add: cleanup_def)
  have "async_run String es (cleanup h) = cleanup h" using m es by (rule detached_run)
  then have r: "async_run String (Detach # es) h = cleanup h" by simp
  have ds: "execute_settle String outcome (cleanup h) = Inr (cleanup h)" for outcome
    using m by (rule detached_settle)
  have "state (cleanup h) = state h" by (simp add: cleanup_def)
  then show ?thesis using r m ds by simp
qed

text \<open>
  The theorem at work: an execution is started, the consumer detaches, and a resolution
  and a rejection arrive late; the state remains the loading state.
\<close>

theorem detach_discards_outcome_witness:
  "list_all is_settle [Settle (Resolved (Some (5::nat))),
                       Settle (Rejected (NonError (ThrownString ''late'')))]
   \<and> state (async_run String_of
        [Execute, Detach, Settle (Resolved (Some (5::nat))),
         Settle (Rejected (NonError (ThrownString ''late'')))] useAsync_mount)
     = \<lparr>status = Loading, data = None, error = None, isLoading = True\<rparr>"
proof -
  have l: "list_all is_settle [Settle (Resolved (Some (5::nat))),
                       Settle (Rejected (NonError (ThrownString ''late'')))]"
    by simp
  have "state (async_run String_of
        (Detach # [Settle (Resolved (Some (5::nat))),
         Settle (Rejected (NonError (ThrownString ''late'')))]) (execute_begin useAsync_mount))
     = state (execute_begin useAsync_mount)"
    using detach_discards_outcome [OF l] by blast
  then show ?thesis using l by (simp add: execute_begin_def)
qed

subsection \<open>Rejections\<close>

text \<open>
  Claim C7, as amended. While the hook is mounted, a rejection or throw with an
  \<^verbatim>\<open>Error\<close> object ends \<^verbatim>\<open>execute\<close> normally in status error with \<^verbatim>\<open>data\<close>
  null and that very object as \<^verbatim>\<open>error\<close>; a rejection with any other value, whose
  conversion by \<^verbatim>\<open>String\<close> returns the text \<open>s\<close>, ends it normally in status
  error with \<^verbatim>\<open>data\<close> null and a new \<^verbatim>\<open>Error\<close> whose message is \<open>s\<close>.
\<close>

theorem rejection_recorded:
  "isMounted h \<Longrightarrow>
   execute_settle String (Rejected (ErrorInstance err)) h
     = Inr (h\<lparr>state := \<lparr>status = Error, data = None, error = Some err, isLoading = False\<rparr>\<rparr>)
   \<and> (\<forall>x s. String x = Some s \<longrightarrow>
         execute_settle String (Rejected (NonError x)) h
         = Inr (h\<lparr>state := \<lparr>status = Error, data = None, error = Some (JsError ''Error'' s),
                           isLoading = False\<rparr>\<rparr>))"
  by (simp add: execute_settle_def)

text \<open>The theorem at work on a thrown string and on a thrown \<^verbatim>\<open>TypeError\<close>.\<close>

theorem rejection_recorded_witness:
  "isMounted (execute_begin (useAsync_mount :: nat AsyncHook))
   \<and> String_of (ThrownString ''boom'') = Some ''boom''
   \<and> execute_settle String_of (Rejected (NonError (ThrownString ''boom'')))
        (execute_begin (useAsync_mount :: nat AsyncHook))
     = Inr \<lparr>state = \<lparr>status = Error, data = None, error = Some (JsError ''Error'' ''boom''),
                      isLoading = False\<rparr>, isMounted = True\<rparr>
   \<and> execute_settle String_of (Rejected (ErrorInstance (JsError ''TypeError'' ''bad'')))
        (execute_begin (useAsync_mount :: nat AsyncHook))
     = Inr \<lparr>state = \<lparr>status = Error, data = None, error = Some (JsError ''TypeError'' ''bad''),
                      isLoading = False\<rparr>, isMounted = True\<rparr>"
proof -
  have m: "isMounted (execute_begin (useAsync_mount :: nat AsyncHook))"
    by (simp add: execute_begin_def useAsync_mount_def)
  have s: "String_of (ThrownString ''boom'') = Some ''boom''" by simp
  note t = rejection_recorded [OF m, of String_of]
  have a: "execute_settle String_of (Rejected (NonError (ThrownString ''boom'')))
        (execute_begin (useAsync_mount :: nat AsyncHook))
     = Inr \<lparr>state = \<lparr>status = Error, data = None, error = Some (JsError ''Error'' ''boom''),
                      isLoading = False\<rparr>, isMounted = True\<rparr>"
    using t [THEN conjunct2, rule_format, OF s]
    by (simp add: execute_begin_def useAsync_mount_def)
  have b: "execute_settle String_of (Rejected (ErrorInstance (JsError ''TypeError'' ''bad'')))
        (execute_begin (useAsync_mount :: nat AsyncHook))
     = Inr \<lparr>state = \<lparr>status = Error, data = None, error = Some (JsError ''TypeError'' ''bad''),
                      isLoading = False\<rparr>, isMounted = True\<rparr>"
    using t [THEN conjunct1, of "JsError ''TypeError'' ''bad''"]
    by (simp add: execute_begin_def useAsync_mount_def)
  show ?thesis using m s a b by blast
qed

text \<open>
  Claim C7 as stated fails in two places. When the consumer has detached before the
  rejection arrives, the guard skips the write and the status stays loading, not error.
  When the rejected value is an object that \<^verbatim>\<open>String\<close> cannot convert, the
  conversion throws inside the handler and an exception leaves \<^verbatim>\<open>execute\<close>.
\<close>

theorem rejection_not_recorded:
  "state (async_run String_of
      [Execute, Detach, Settle (Rejected (NonError (ThrownString ''boom'')))]
      (useAsync_mount :: nat AsyncHook))
     = \<lparr>status = Loading, data = None, error = None, isLoading = True\<rparr>
   \<and> execute_settle String_of (Rejected (NonError ThrownBareObject))
        (execute_begin (useAsync_mount :: nat AsyncHook)) = Inl StringConversionThrew"
  by (simp add: execute_settle_def execute_begin_def useAsync_mount_def cleanup_def)

section \<open>Properties of the form state\<close>

text \<open>
  Whatever the form state and whether or not a snapshot is supplied, \<open>resetForm\<close>
  leaves the errors map empty, the touched set empty and the submitting flag false, and
  the fields are the supplied snapshot when there is one and the \<^verbatim>\<open>initialData\<close> it
  closes over otherwise; nothing of the previous state remains.
\<close>

lemma resetForm_resets:
  "formData (resetForm initialData newInitialData s)
     = (case newInitialData of Some d \<Rightarrow> d | None \<Rightarrow> initialData)
   \<and> errors (resetForm initialData newInitialData s) = Map.empty
   \<and> touched (resetForm initialData newInitialData s) = {}
   \<and> isSubmitting (resetForm initialData newInitialData s) = False
   \<and> resetForm initialData None s = FormProvider initialData
   \<and> resetForm initialData (Some d) s = FormProvider d"
  by (simp add: resetForm_def FormProvider_def)

lemma form_run_append: "form_run (es @ fs) p = form_run fs (form_run es p)"
  by (induction es arbitrary: p) simp_all

lemma form_run_prop:
  "initialData_prop (form_run es p) = provider_initialData (latest_prop given es)"
  if "initialData_prop p = provider_initialData given"
  using that
proof (induction es arbitrary: p given)
  case Nil
  then show ?case by simp
next
  case (Cons e es)
  show ?case
  proof (cases e)
    case (Rerender given')
    have "initialData_prop (form_step e p) = provider_initialData given'"
      using Rerender by (simp add: FormProvider_rerender_def)
    then show ?thesis using Cons.IH [of "form_step e p" given'] Rerender by simp
  qed (simp_all add: Cons)
qed

lemma latest_prop_unchanged:
  "list_all (same_snapshot given) es \<Longrightarrow>
   provider_initialData (latest_prop given' es) = provider_initialData given"
  if "provider_initialData given' = provider_initialData given"
  using that
proof (induction es arbitrary: given')
  case Nil
  then show ?case by simp
next
  case (Cons e es)
  then show ?case by (cases e) simp_all
qed

text \<open>
  Claim C8, as amended. After any history of calls and renders of a provider,
  \<open>resetForm\<close> leaves the errors map empty, the touched set empty and the submitting
  flag false, and replaces the fields wholesale: by the supplied snapshot when one is
  given, otherwise by the \<^verbatim>\<open>initialData\<close> property of the provider's latest render.
  That is the snapshot the provider was mounted with as long as no render has supplied
  another one, and the form is then back in the state it was mounted in.
\<close>

theorem resetForm_restores:
  "form (form_run (es @ [ResetForm newInitialData]) (FormProvider_mount given))
     = \<lparr>formData = (case newInitialData of
                      Some d \<Rightarrow> d
                    | None \<Rightarrow> provider_initialData (latest_prop given es)),
        errors = Map.empty, touched = {}, isSubmitting = False\<rparr>
   \<and> (list_all (same_snapshot given) es \<longrightarrow>
        form (form_run (es @ [ResetForm None]) (FormProvider_mount given))
        = form (FormProvider_mount given))"
proof -
  have p: "initialData_prop (form_run es (FormProvider_mount given))
           = provider_initialData (latest_prop given es)"
    by (rule form_run_prop) (simp add: FormProvider_mount_def)
  have r: "form (form_run (es @ [ResetForm arg]) (FormProvider_mount given))
     = \<lparr>formData = (case arg of
                      Some d \<Rightarrow> d
                    | None \<Rightarrow> provider_initialData (latest_prop given es)),
        errors = Map.empty, touched = {}, isSubmitting = False\<rparr>" for arg
    using p by (simp add: form_run_append resetForm_def)
  have "form (form_run (es @ [ResetForm None]) (FormProvider_mount given))
        = form (FormProvider_mount given)" if same: "list_all (same_snapshot given) es"
  proof -
    have "provider_initialData (latest_prop given es) = provider_initialData given"
      using same by (rule latest_prop_unchanged [OF refl])
    then show ?thesis using r [of None] by (simp add: FormProvider_mount_def FormProvider_def)
  qed
  then show ?thesis using r [of newInitialData] by blast
qed

text \<open>
  The theorem at work: a provider mounted with one field, then edited, marked, rendered
  again with the same snapshot and set submitting, is back in its mounted state after
  \<^verbatim>\<open>resetForm()\<close>.
\<close>

theorem resetForm_restores_witness:
  "list_all (same_snapshot (Some [''a'' \<mapsto> (0::nat)])) [UpdateField ''a'' 1, SetFieldError ''a'' (Some ''required''), MarkAsTouched ''a'', Rerender (Some [''a'' \<mapsto> 0]), SetIsSubmitting True]
   \<and> form (form_run ([UpdateField ''a'' 1, SetFieldError ''a'' (Some ''required''), MarkAsTouched ''a'', Rerender (Some [''a'' \<mapsto> 0]), SetIsSubmitting True] @ [ResetForm None]) (FormProvider_mount (Some [''a'' \<mapsto> (0::nat)])))
     = \<lparr>formData = [''a'' \<mapsto> 0], errors = Map.empty, touched = {}, isSubmitting = False\<rparr>"
proof -
  have l: "list_all (same_snapshot (Some [''a'' \<mapsto> (0::nat)])) [UpdateField ''a'' 1, SetFieldError ''a'' (Some ''required''), MarkAsTouched ''a'', Rerender (Some [''a'' \<mapsto> 0]), SetIsSubmitting True]"
    by simp
  have "form (form_run ([UpdateField ''a'' 1, SetFieldError ''a'' (Some ''required''), MarkAsTouched ''a'', Rerender (Some [''a'' \<mapsto> 0]), SetIsSubmitting True] @ [ResetForm None]) (FormProvider_mount (Some [''a'' \<mapsto> (0::nat)])))
        = form (FormProvider_mount (Some [''a'' \<mapsto> (0::nat)]))"
    using resetForm_restores [of "[UpdateField ''a'' 1, SetFieldError ''a'' (Some ''required''), MarkAsTouched ''a'', Rerender (Some [''a'' \<mapsto> 0]), SetIsSubmitting True]" None "(Some [''a'' \<mapsto> (0::nat)])"] l by blast
  then show ?thesis
    using l by (simp add: FormProvider_mount_def FormProvider_def provider_initialData_def)
qed

text \<open>
  Claim C8 as stated fails after a render with another property. A provider is mounted
  with \<^verbatim>\<open>{a: 0}\<close>, the field is edited, and the parent renders the provider again with
  \<^verbatim>\<open>{a: 9}\<close>; \<^verbatim>\<open>resetForm()\<close> then sets the field to 9, the property of the latest
  render, not to 0, the snapshot the provider started with.
\<close>

theorem resetForm_not_original:
  "formData (form (FormProvider_mount (Some [''a'' \<mapsto> (0::nat)]))) ''a'' = Some 0
   \<and> formData (form (form_run ([UpdateField ''a'' 1, Rerender (Some [''a'' \<mapsto> 9])] @ [ResetForm None]) (FormProvider_mount (Some [''a'' \<mapsto> (0::nat)])))) ''a''
     = Some 9"
  by (simp add: FormProvider_mount_def FormProvider_def provider_initialData_def
      FormProvider_rerender_def resetForm_def updateField_def)

section \<open>Properties of the storage-backed state\<close>

lemma setValue_same_instance:
  "storedValue (fst (setValue P key (Value v) (h, st))) = v"
  by (simp add: setValue_def Let_def split: sum.splits)

lemma setValue_store:
  assumes "window_defined P" "\<not> storage_denied P" "JSON_stringify P v = Inr text"
    "quota_allows P st key text"
  shows "snd (setValue P key (Value v) (h, st)) = st(key \<mapsto> text)"
  using assms by (simp add: setValue_def setItem_def Let_def)

lemma useLocalStorage_reads:
  assumes "window_defined P" "\<not> storage_denied P" "st key = Some text" "text \<noteq> []"
    "JSON_parse P text = Inr v"
  shows "storedValue (useLocalStorage P st key initialValue) = v"
  using assms by (simp add: useLocalStorage_def getItem_def)

subsection \<open>The scalar codec\<close>

lemma digit_value_digit_char: "d < 10 \<Longrightarrow> digit_value (digit_char d) = Some d"
proof -
  assume "d < 10"
  then have "d \<in> {0, 1, 2, 3, 4, 5, 6, 7, 8, 9}" by auto
  then show ?thesis by (auto simp: digit_value_def digit_char_def)
qed

lemma parse_digits_snoc:
  "parse_digits acc (xs @ [c]) =
     (case parse_digits acc xs of
        None \<Rightarrow> None
      | Some m \<Rightarrow> (case digit_value c of None \<Rightarrow> None | Some d \<Rightarrow> Some (10 * m + d)))"
  by (induction xs arbitrary: acc) (auto split: option.splits)

lemma parse_digits_digits: "parse_digits 0 (digits n) = Some n"
proof (induction n rule: digits.induct)
  case (1 n)
  show ?case
  proof (cases "n < 10")
    case True
    then show ?thesis by (simp add: digits_small digit_value_digit_char)
  next
    case False
    then show ?thesis
      using 1 by (simp add: digits_large parse_digits_snoc digit_value_digit_char)
  qed
qed

lemma hd_digits_digit: "hd (digits n) \<in> set ''0123456789''"
proof (induction n rule: digits.induct)
  case (1 n)
  show ?case
  proof (cases "n < 10")
    case True
    then have "digit_char n \<in> set ''0123456789''"
      unfolding digit_char_def by (intro nth_mem) simp
    then show ?thesis using True by (simp add: digits_small)
  next
    case False
    then show ?thesis using 1 digits_not_Nil [of "n div 10"] by (simp add: digits_large)
  qed
qed

lemma hd_digits_nonzero: "0 < n \<Longrightarrow> hd (digits n) \<noteq> CHR ''0''"
proof (induction n rule: digits.induct)
  case (1 n)
  show ?case
  proof (cases "n < 10")
    case True
    have "digit_char n = digit_char 0 \<Longrightarrow> n = 0" using True digit_char_inj [of n 0] by simp
    then have "digit_char n \<noteq> CHR ''0''" using "1.prems" by (auto simp: digit_char_def)
    then show ?thesis using True by (simp add: digits_small)
  next
    case False
    then have "0 < n div 10" by simp
    then show ?thesis using 1 False digits_not_Nil [of "n div 10"] by (simp add: digits_large)
  qed
qed

lemma parse_natural_digits: "parse_natural (digits n) = Some n"
proof (cases "n < 10")
  case True
  then show ?thesis
    using parse_digits_digits [of n] by (simp add: parse_natural_def digits_small)
next
  case False
  then have "hd (digits n) \<noteq> CHR ''0''" using hd_digits_nonzero [of n] by simp
  then show ?thesis
    using parse_digits_digits [of n] digits_not_Nil [of n] by (simp add: parse_natural_def)
qed

lemma digits_not_keyword:
  "digits n \<noteq> ''null''" "digits n \<noteq> ''true''" "digits n \<noteq> ''false''"
  using hd_digits_digit [of n] by auto

lemma JSON_parse_scalar_dec:
  "\<bar>i\<bar> \<le> MAX_SAFE_INTEGER \<Longrightarrow> JSON_parse_scalar (dec i) = Inr (JInt i)"
proof (cases "i < 0")
  case True
  assume "\<bar>i\<bar> \<le> MAX_SAFE_INTEGER"
  then have "0 < nat (- i) \<and> int (nat (- i)) \<le> MAX_SAFE_INTEGER" using True by simp
  then show ?thesis using True
    by (simp add: JSON_parse_scalar_def dec_def parse_natural_digits)
next
  case False
  assume "\<bar>i\<bar> \<le> MAX_SAFE_INTEGER"
  then have safe: "int (nat i) \<le> MAX_SAFE_INTEGER" using False by simp
  obtain c cs where d: "digits (nat i) = c # cs" using digits_not_Nil [of "nat i"]
    by (cases "digits (nat i)") auto
  then have c: "c \<noteq> CHR ''-''" using digits_no_minus [of "nat i"] by auto
  have u: "c # cs \<noteq> ''undefined''" using hd_digits_digit [of "nat i"] d by auto
  have "parse_natural (c # cs) = Some (nat i)" using parse_natural_digits [of "nat i"] d by simp
  then show ?thesis
    using False d c u safe digits_not_keyword [of "nat i"]
    by (simp add: JSON_parse_scalar_def dec_def)
qed

text \<open>
  On the values it describes, the codec of \<open>browser\<close> returns what it was given,
  except for \<^verbatim>\<open>undefined\<close> and \<^verbatim>\<open>NaN\<close>; so in that browser a fresh instance
  restores every other such value that was set.
\<close>

lemma browser_round_trip:
  "described v \<Longrightarrow> v \<noteq> JUndefined \<Longrightarrow> v \<noteq> JNaN \<Longrightarrow>
   \<exists>str. JSON_stringify browser v = Inr str \<and> str \<noteq> []
      \<and> JSON_parse browser str = Inr v"
proof (cases v)
  case (JInt i)
  assume "described v"
  then have safe: "\<bar>i\<bar> \<le> MAX_SAFE_INTEGER" using JInt by simp
  have "dec i \<noteq> []" using digits_not_Nil by (simp add: dec_def)
  then show ?thesis using JInt safe JSON_parse_scalar_dec [of i] by (simp add: browser_def)
next
  case (JBool b)
  then show ?thesis by (cases b) (simp_all add: browser_def JSON_parse_scalar_def)
qed (simp_all add: browser_def JSON_parse_scalar_def)

lemma browser_restores:
  "described v \<Longrightarrow> v \<noteq> JUndefined \<Longrightarrow> v \<noteq> JNaN \<Longrightarrow>
   storedValue (useLocalStorage browser (snd (setValue browser key (Value v) (h, st))) key
      initialValue) = v"
proof -
  assume "described v" "v \<noteq> JUndefined" "v \<noteq> JNaN"
  then obtain str where t: "JSON_stringify browser v = Inr str" "str \<noteq> []"
      "JSON_parse browser str = Inr v"
    using browser_round_trip by blast
  have b: "window_defined browser" "\<not> storage_denied browser" "quota_allows browser st key str"
    by (simp_all add: browser_def)
  have s: "snd (setValue browser key (Value v) (h, st)) = st(key \<mapsto> str)"
    using b(1,2) t(1) b(3) by (rule setValue_store)
  show ?thesis
    using useLocalStorage_reads [OF b(1,2) _ t(2,3), of "st(key \<mapsto> str)" key initialValue] s
    by simp
qed

subsection \<open>Round trip\<close>

text \<open>
  Claim C1, as amended. For every key and every value passed to \<open>setValue\<close> as a value
  (not as an updater function), the same instance holds that value afterwards, on every
  platform. A fresh instance created with the same key on the resulting store holds it
  too, whatever its own \<^verbatim>\<open>initialValue\<close>, provided the write took place and the
  value survives the JSON codec: \<^verbatim>\<open>window\<close> exists, access to the store is not
  refused, \<^verbatim>\<open>JSON.stringify\<close> returns a non-empty text, the store accepts it, and
  \<^verbatim>\<open>JSON.parse\<close> of that text returns the value. In every other case the third
  conjunct says what the fresh instance holds: without \<^verbatim>\<open>window\<close> or with access
  refused, its own \<^verbatim>\<open>initialValue\<close>; when \<^verbatim>\<open>JSON.stringify\<close> throws or the store
  refuses the text, what it would have read from the store as it was before; and when
  the text was written, what \<^verbatim>\<open>JSON.parse\<close> returns for it, or its own
  \<^verbatim>\<open>initialValue\<close> when the text is empty or does not parse.
\<close>

theorem setValue_round_trip:
  "storedValue (fst (setValue P key (Value v) (h, st))) = v
   \<and> (window_defined P \<and> \<not> storage_denied P \<and> JSON_stringify P v = Inr text \<and> text \<noteq> []
        \<and> quota_allows P st key text \<and> JSON_parse P text = Inr v \<longrightarrow>
        snd (setValue P key (Value v) (h, st)) key = Some text
        \<and> storedValue (useLocalStorage P (snd (setValue P key (Value v) (h, st))) key initialValue)
          = v)
   \<and> storedValue (useLocalStorage P (snd (setValue P key (Value v) (h, st))) key initialValue)
     = (if window_defined P \<and> \<not> storage_denied P
        then (case JSON_stringify P v of
                Inl ex \<Rightarrow> storedValue (useLocalStorage P st key initialValue)
              | Inr written \<Rightarrow>
                  if quota_allows P st key written
                  then (if written \<noteq> []
                        then (case JSON_parse P written of
                                Inl ex \<Rightarrow> initialValue
                              | Inr parsed \<Rightarrow> parsed)
                        else initialValue)
                  else storedValue (useLocalStorage P st key initialValue))
        else initialValue)"
proof -
  have "storedValue (useLocalStorage P (snd (setValue P key (Value v) (h, st))) key initialValue)
          = v \<and> snd (setValue P key (Value v) (h, st)) key = Some text"
    if a: "window_defined P" "\<not> storage_denied P" "JSON_stringify P v = Inr text"
      "quota_allows P st key text" and b: "text \<noteq> []" "JSON_parse P text = Inr v"
  proof -
    have s: "snd (setValue P key (Value v) (h, st)) = st(key \<mapsto> text)"
      using a by (rule setValue_store)
    then have "snd (setValue P key (Value v) (h, st)) key = Some text" by simp
    then show ?thesis using useLocalStorage_reads [OF a(1,2) _ b] by simp
  qed
  moreover have
    "storedValue (useLocalStorage P (snd (setValue P key (Value v) (h, st))) key initialValue)
     = (if window_defined P \<and> \<not> storage_denied P
        then (case JSON_stringify P v of
                Inl ex \<Rightarrow> storedValue (useLocalStorage P st key initialValue)
              | Inr written \<Rightarrow>
                  if quota_allows P st key written
                  then (if written \<noteq> []
                        then (case JSON_parse P written of
                                Inl ex \<Rightarrow> initialValue
                              | Inr parsed \<Rightarrow> parsed)
                        else initialValue)
                  else storedValue (useLocalStorage P st key initialValue))
        else initialValue)"
    by (simp add: setValue_def setItem_def useLocalStorage_def getItem_def Let_def
        split: sum.splits)
  ultimately show ?thesis using setValue_same_instance [of P key v h st] by blast
qed

text \<open>
  The scenario of the specification: \<^verbatim>\<open>useLocalStorage('n', 0)\<close>, \<^verbatim>\<open>setValue(5)\<close>,
  then a new instance on the same store starts with 5.
\<close>

theorem setValue_round_trip_witness:
  "window_defined browser \<and> \<not> storage_denied browser
   \<and> JSON_stringify browser (JInt 5) = Inr ''5'' \<and> ''5'' \<noteq> []
   \<and> quota_allows browser Map.empty ''n'' ''5'' \<and> JSON_parse browser ''5'' = Inr (JInt 5)
   \<and> storedValue (useLocalStorage browser
        (snd (setValue browser ''n'' (Value (JInt 5))
           (useLocalStorage browser Map.empty ''n'' (JInt 0), Map.empty))) ''n'' (JInt 0))
     = JInt 5"
proof -
  have a: "window_defined browser \<and> \<not> storage_denied browser
   \<and> JSON_stringify browser (JInt 5) = Inr ''5'' \<and> ''5'' \<noteq> []
   \<and> quota_allows browser Map.empty ''n'' ''5'' \<and> JSON_parse browser ''5'' = Inr (JInt 5)"
    by (simp add: browser_def render_simps JSON_parse_scalar_def parse_natural_def digit_value_def
        MAX_SAFE_INTEGER_def)
  show ?thesis
    using a setValue_round_trip [of browser "''n''" "JInt 5"
        "useLocalStorage browser Map.empty ''n'' (JInt 0)" Map.empty "''5''" "JInt 0"]
    by blast
qed

text \<open>
  Claim C1 as stated fails for values that JSON does not carry. After
  \<^verbatim>\<open>setValue(undefined)\<close> the store holds the text \<^verbatim>\<open>undefined\<close>, which does not
  parse, and a fresh instance falls back to its \<^verbatim>\<open>initialValue\<close> 0; after
  \<^verbatim>\<open>setValue(NaN)\<close> the store holds \<^verbatim>\<open>null\<close> and a fresh instance reads
  \<^verbatim>\<open>null\<close>.
\<close>

theorem setValue_round_trip_fails:
  "storedValue (useLocalStorage browser
        (snd (setValue browser ''n'' (Value JUndefined)
           (useLocalStorage browser Map.empty ''n'' (JInt 0), Map.empty))) ''n'' (JInt 0))
     = JInt 0
   \<and> storedValue (useLocalStorage browser
        (snd (setValue browser ''n'' (Value JNaN)
           (useLocalStorage browser Map.empty ''n'' (JInt 0), Map.empty))) ''n'' (JInt 0))
     = JNull"
  by (simp add: browser_def setValue_def setItem_def useLocalStorage_def getItem_def
      JSON_parse_scalar_def parse_natural_def digit_value_def MAX_SAFE_INTEGER_def)

end
